theory Spec2Isabelle
  imports Complex_Main "HOL-Library.Word" "HOL-Library.DAList" "HOL-Library.Sublist"
begin

unbundle bit_operations_syntax

section \<open>JavaScript numbers\<close>

text \<open>
  A JavaScript number is an IEEE double. Every finite double is a real number, and the
  operations the builder applies to its numeric arguments (comparison with zero,
  \<^verbatim>\<open>Math.max\<close>, and the conversion to a 32-bit integer behind \<^verbatim>\<open>~\<close>) are exact: none
  of them rounds. The model therefore carries the three special values beside a real;
  negative zero is identified with zero, which no operation below tells apart.
\<close>

datatype number = NaN | PosInfinity | NegInfinity | Finite real

text \<open>\<^verbatim>\<open>a > b\<close> on numbers: false as soon as one side is NaN.\<close>

fun number_gt :: "number \<Rightarrow> number \<Rightarrow> bool" where
  "number_gt NaN _ = False"
| "number_gt _ NaN = False"
| "number_gt PosInfinity b = (b \<noteq> PosInfinity)"
| "number_gt NegInfinity _ = False"
| "number_gt (Finite x) PosInfinity = False"
| "number_gt (Finite x) NegInfinity = True"
| "number_gt (Finite x) (Finite y) = (x > y)"

text \<open>\<^verbatim>\<open>Math.max(a, b)\<close>: NaN if either argument is NaN, else the larger one.\<close>

fun Math_max :: "number \<Rightarrow> number \<Rightarrow> number" where
  "Math_max NaN _ = NaN"
| "Math_max _ NaN = NaN"
| "Math_max a b = (if number_gt b a then b else a)"

text \<open>
  The abstract operation ToInt32 of the language: NaN and the infinities give 0; a finite
  number is truncated toward zero and then reduced modulo \<open>2 ^ 32\<close>, which is what the
  conversion of the integer to a 32-bit word does.
\<close>

definition trunc_toward_zero :: "real \<Rightarrow> int" where
  "trunc_toward_zero x = (if x < 0 then - \<lfloor>- x\<rfloor> else \<lfloor>x\<rfloor>)"

fun ToInt32 :: "number \<Rightarrow> 32 word" where
  "ToInt32 (Finite x) = word_of_int (trunc_toward_zero x)"
| "ToInt32 _ = 0"

text \<open>\<^verbatim>\<open>~x\<close>: the bitwise complement of ToInt32 of \<open>x\<close>, read as a signed 32-bit integer.\<close>

definition bitwise_not :: "number \<Rightarrow> number" where
  "bitwise_not x = Finite (of_int (sint (NOT (ToInt32 x))))"

text \<open>The idiom \<^verbatim>\<open>~~x\<close> of the source.\<close>

definition double_tilde :: "number \<Rightarrow> number" where
  "double_tilde x = bitwise_not (bitwise_not x)"

section \<open>Keys of the store\<close>

text \<open>
  \<^verbatim>\<open>Deno.KvKeyPart\<close>: byte strings, strings, numbers, big integers and booleans; a key
  is a tuple of parts.
\<close>

datatype KvKeyPart =
    KBytes "nat list"
  | KString string
  | KNumber number
  | KBigInt int
  | KBoolean bool

type_synonym KvKey = "KvKeyPart list"

section \<open>The query builder (view-query.ts)\<close>

text \<open>
  The private slots of class \<^verbatim>\<open>ViewQuery\<close>. An optional slot (\<^verbatim>\<open>#key?: string\<close>) holds
  \<open>None\<close> while it is \<^verbatim>\<open>undefined\<close>.
\<close>

record ViewQuery =
  vq_viewName :: string
  vq_limit :: number
  vq_skip :: number
  vq_reduce :: bool
  vq_includeDocs :: bool
  vq_descending :: bool
  vq_key :: "string option"
  vq_keys :: "string list option"
  vq_prefix :: "KvKey option"
  vq_startKey :: "KvKey option"
  vq_endKey :: "KvKey option"
  vq_startKeyDocId :: "string option"
  vq_endKeyDocId :: "string option"
  vq_groupLevel :: "number option"

text \<open>\<^verbatim>\<open>ViewQuery.for(viewName)\<close>: the constructor with the initial values of the slots.\<close>

definition ViewQuery_for :: "string \<Rightarrow> ViewQuery" where
  "ViewQuery_for name =
     \<lparr> vq_viewName = name, vq_limit = PosInfinity, vq_skip = Finite 0,
       vq_reduce = False, vq_includeDocs = False, vq_descending = False,
       vq_key = None, vq_keys = None, vq_prefix = None,
       vq_startKey = None, vq_endKey = None,
       vq_startKeyDocId = None, vq_endKeyDocId = None, vq_groupLevel = None \<rparr>"

definition ViewQuery_key :: "string \<Rightarrow> ViewQuery \<Rightarrow> ViewQuery" where
  "ViewQuery_key k q = q\<lparr> vq_key := Some k \<rparr>"

definition ViewQuery_keys :: "string list \<Rightarrow> ViewQuery \<Rightarrow> ViewQuery" where
  "ViewQuery_keys ks q = q\<lparr> vq_keys := Some ks \<rparr>"

definition ViewQuery_prefix :: "KvKey \<Rightarrow> ViewQuery \<Rightarrow> ViewQuery" where
  "ViewQuery_prefix p q = q\<lparr> vq_prefix := Some p \<rparr>"

definition ViewQuery_range :: "KvKey \<Rightarrow> KvKey \<Rightarrow> ViewQuery \<Rightarrow> ViewQuery" where
  "ViewQuery_range startKey endKey q =
     q\<lparr> vq_startKey := Some startKey, vq_endKey := Some endKey \<rparr>"

definition ViewQuery_idRange :: "string \<Rightarrow> string \<Rightarrow> ViewQuery \<Rightarrow> ViewQuery" where
  "ViewQuery_idRange startId endId q =
     q\<lparr> vq_startKeyDocId := Some startId, vq_endKeyDocId := Some endId \<rparr>"

text \<open>\<^verbatim>\<open>this.#skip = ~~Math.max(0, n)\<close>, and the same for the limit.\<close>

definition ViewQuery_skip :: "number \<Rightarrow> ViewQuery \<Rightarrow> ViewQuery" where
  "ViewQuery_skip n q = q\<lparr> vq_skip := double_tilde (Math_max (Finite 0) n) \<rparr>"

definition ViewQuery_limit :: "number \<Rightarrow> ViewQuery \<Rightarrow> ViewQuery" where
  "ViewQuery_limit n q = q\<lparr> vq_limit := double_tilde (Math_max (Finite 0) n) \<rparr>"

definition ViewQuery_includeDocs :: "bool \<Rightarrow> ViewQuery \<Rightarrow> ViewQuery" where
  "ViewQuery_includeDocs shouldInclude q = q\<lparr> vq_includeDocs := shouldInclude \<rparr>"

datatype SortOrder = DESCENDING | ASCENDING

definition ViewQuery_order :: "SortOrder \<Rightarrow> ViewQuery \<Rightarrow> ViewQuery" where
  "ViewQuery_order direction q = q\<lparr> vq_descending := (direction = DESCENDING) \<rparr>"

definition ViewQuery_reduce :: "bool \<Rightarrow> ViewQuery \<Rightarrow> ViewQuery" where
  "ViewQuery_reduce shouldReduce q = q\<lparr> vq_reduce := shouldReduce \<rparr>"

text \<open>
  \<^verbatim>\<open>group(level: boolean | number = true)\<close>. The argument is a boolean or a number; the
  \<^verbatim>\<open>TypeError\<close> thrown at the end is the error value \<open>InvalidGroupLevel\<close>, and the builder
  is not touched on that path.
\<close>

datatype GroupLevel = GBoolean bool | GNumber number

datatype builder_error = InvalidGroupLevel

definition ViewQuery_group :: "GroupLevel \<Rightarrow> ViewQuery \<Rightarrow> builder_error + ViewQuery" where
  "ViewQuery_group level q =
     (if level = GBoolean True \<or> level = GNumber (Finite 0) then
        Inr (q\<lparr> vq_reduce := True, vq_groupLevel := Some (Finite 0) \<rparr>)
      else if level = GBoolean False then
        Inr (q\<lparr> vq_groupLevel := None \<rparr>)
      else
        (case level of
           GNumber n \<Rightarrow>
             if number_gt n (Finite 0) then
               Inr (q\<lparr> vq_reduce := True, vq_groupLevel := Some (double_tilde n) \<rparr>)
             else Inl InvalidGroupLevel
         | GBoolean _ \<Rightarrow> Inl InvalidGroupLevel))"

text \<open>
  \<^verbatim>\<open>ViewQueryParameters\<close>: the common fields and the shape variant, whose tag is the
  \<^verbatim>\<open>type\<close> field of the source.
\<close>

datatype QueryShape =
    ScanShape "number option"
  | KeyShape string
  | KeysShape "string list"
  | PrefixShape KvKey
  | RangeShape KvKey KvKey "string option" "string option" "number option"

fun shape_type :: "QueryShape \<Rightarrow> string" where
  "shape_type (ScanShape _) = ''scan''"
| "shape_type (KeyShape _) = ''key''"
| "shape_type (KeysShape _) = ''keys''"
| "shape_type (PrefixShape _) = ''prefix''"
| "shape_type (RangeShape _ _ _ _ _) = ''range''"

record ViewQueryParameters =
  p_viewName :: string
  p_reduce :: bool
  p_includeDocs :: bool
  p_descending :: bool
  p_limit :: number
  p_skip :: number
  p_shape :: QueryShape

definition getParams_shape :: "ViewQuery \<Rightarrow> QueryShape" where
  "getParams_shape q =
     (case vq_key q of
        Some k \<Rightarrow> KeyShape k
      | None \<Rightarrow>
     (case vq_keys q of
        Some ks \<Rightarrow> KeysShape ks
      | None \<Rightarrow>
     (case vq_prefix q of
        Some p \<Rightarrow> PrefixShape p
      | None \<Rightarrow>
     (case (vq_startKey q, vq_endKey q) of
        (Some s, Some e) \<Rightarrow> RangeShape s e (vq_startKeyDocId q) (vq_endKeyDocId q) (vq_groupLevel q)
      | _ \<Rightarrow> ScanShape (vq_groupLevel q)))))"

definition ViewQuery_getParams :: "ViewQuery \<Rightarrow> ViewQueryParameters" where
  "ViewQuery_getParams q =
     \<lparr> p_viewName = vq_viewName q, p_reduce = vq_reduce q,
       p_includeDocs = vq_includeDocs q, p_descending = vq_descending q,
       p_limit = vq_limit q, p_skip = vq_skip q, p_shape = getParams_shape q \<rparr>"

text \<open>
  A call of one of the builder's methods, and a chain of calls applied from left to
  right to the builder. A \<^verbatim>\<open>group\<close> call that throws leaves the builder as it was.
\<close>

datatype builder_call =
    CallKey string
  | CallKeys "string list"
  | CallPrefix KvKey
  | CallRange KvKey KvKey
  | CallIdRange string string
  | CallSkip number
  | CallLimit number
  | CallIncludeDocs bool
  | CallOrder SortOrder
  | CallReduce bool
  | CallGroup GroupLevel

fun apply_call :: "ViewQuery \<Rightarrow> builder_call \<Rightarrow> ViewQuery" where
  "apply_call q (CallKey k) = ViewQuery_key k q"
| "apply_call q (CallKeys ks) = ViewQuery_keys ks q"
| "apply_call q (CallPrefix p) = ViewQuery_prefix p q"
| "apply_call q (CallRange s e) = ViewQuery_range s e q"
| "apply_call q (CallIdRange s e) = ViewQuery_idRange s e q"
| "apply_call q (CallSkip n) = ViewQuery_skip n q"
| "apply_call q (CallLimit n) = ViewQuery_limit n q"
| "apply_call q (CallIncludeDocs b) = ViewQuery_includeDocs b q"
| "apply_call q (CallOrder d) = ViewQuery_order d q"
| "apply_call q (CallReduce b) = ViewQuery_reduce b q"
| "apply_call q (CallGroup g) = (case ViewQuery_group g q of Inr q' \<Rightarrow> q' | Inl _ \<Rightarrow> q)"

definition build :: "string \<Rightarrow> builder_call list \<Rightarrow> ViewQuery" where
  "build name calls = foldl apply_call (ViewQuery_for name) calls"

fun is_key_call :: "builder_call \<Rightarrow> bool" where
  "is_key_call (CallKey _) = True" | "is_key_call _ = False"

fun is_keys_call :: "builder_call \<Rightarrow> bool" where
  "is_keys_call (CallKeys _) = True" | "is_keys_call _ = False"

fun is_prefix_call :: "builder_call \<Rightarrow> bool" where
  "is_prefix_call (CallPrefix _) = True" | "is_prefix_call _ = False"

fun is_range_call :: "builder_call \<Rightarrow> bool" where
  "is_range_call (CallRange _ _) = True" | "is_range_call _ = False"

text \<open>The shape tag the precedence rule of the specification assigns to a chain of calls.\<close>

definition precedence_type :: "builder_call list \<Rightarrow> string" where
  "precedence_type calls =
     (if list_ex is_key_call calls then ''key''
      else if list_ex is_keys_call calls then ''keys''
      else if list_ex is_prefix_call calls then ''prefix''
      else if list_ex is_range_call calls then ''range''
      else ''scan'')"


section \<open>Documents and stored values\<close>

text \<open>
  A versionstamp is the token the store assigns to a commit. The store hands it out as an
  opaque string; the model keeps the number of the commit behind it.
\<close>

type_synonym Versionstamp = nat

text \<open>
  Values of the language, as far as documents need them. \<open>JStamp v\<close> is the versionstamp
  string of commit \<open>v\<close>, as it appears in the \<^verbatim>\<open>_rev\<close> field of a document.
\<close>

datatype jval =
    JUndefined
  | JNull
  | JBoolean bool
  | JNumber number
  | JString string
  | JStamp Versionstamp
  | JArray "jval list"
  | JObject "(string \<times> jval) list"

text \<open>Truthiness, as \<^verbatim>\<open>||\<close> and \<^verbatim>\<open>if\<close> test it. A versionstamp string is never empty.\<close>

fun truthy :: "jval \<Rightarrow> bool" where
  "truthy JUndefined = False"
| "truthy JNull = False"
| "truthy (JBoolean b) = b"
| "truthy (JNumber n) = (n \<noteq> NaN \<and> n \<noteq> Finite 0)"
| "truthy (JString s) = (s \<noteq> [])"
| "truthy (JStamp _) = True"
| "truthy (JArray _) = True"
| "truthy (JObject _) = True"

text \<open>
  The types \<^verbatim>\<open>Document\<close>, \<^verbatim>\<open>StoredDocument\<close> and \<^verbatim>\<open>MaybeDocument\<close> are objects with
  string keys: a map from the names of the own properties to their values. A property
  that is present with the value \<^verbatim>\<open>undefined\<close> is \<open>Some JUndefined\<close>.
\<close>

type_synonym Document = "string \<rightharpoonup> jval"

datatype ViewStateTag = Building | Ready

record ViewState =
  vs_signature :: string
  vs_state :: ViewStateTag

record ViewRow =
  row_value :: jval
  row_doc :: Document

text \<open>
  The program keeps four kinds of values in the store, each under its own kind of key
  and each read back through a cast (\<^verbatim>\<open>kv.get<T>\<close>): documents, view rows,
  back-references (lists of row keys) and design records.
\<close>

datatype KvValue =
    DocValue Document
  | RowValue ViewRow
  | RefValue "KvKey list"
  | DesignValue ViewState

section \<open>The ordered key-value store\<close>

text \<open>
  The store is the environment of the program (\<^verbatim>\<open>Deno.Kv\<close>). Its contract, as the
  program uses it: every key holds a value and the versionstamp of the commit that wrote
  it; an atomic operation carries checks and mutations, and commits all mutations, in
  order and under one fresh versionstamp, if every check holds, and nothing otherwise;
  a listing returns the entries under a prefix, or in a range, in key order.
  The limits of the real store on the size of keys, values and batches are not modelled.
\<close>

record KvEntry =
  entry_value :: KvValue
  entry_versionstamp :: Versionstamp

record Kv =
  kv_entries :: "(KvKey, KvEntry) alist"
  kv_clock :: Versionstamp

definition kv_empty :: Kv where
  "kv_empty = \<lparr> kv_entries = DAList.empty, kv_clock = 0 \<rparr>"

definition kv_get :: "Kv \<Rightarrow> KvKey \<Rightarrow> KvEntry option" where
  "kv_get kv k = DAList.lookup (kv_entries kv) k"

datatype KvMutation = KvSet KvKey KvValue | KvDelete KvKey

record AtomicOperation =
  ao_checks :: "(KvKey \<times> Versionstamp option) list"
  ao_mutations :: "KvMutation list"

definition atomic :: AtomicOperation where
  "atomic = \<lparr> ao_checks = [], ao_mutations = [] \<rparr>"

definition atomic_check :: "KvKey \<Rightarrow> Versionstamp option \<Rightarrow> AtomicOperation \<Rightarrow> AtomicOperation" where
  "atomic_check k v ao = ao\<lparr> ao_checks := ao_checks ao @ [(k, v)] \<rparr>"

definition atomic_set :: "KvKey \<Rightarrow> KvValue \<Rightarrow> AtomicOperation \<Rightarrow> AtomicOperation" where
  "atomic_set k v ao = ao\<lparr> ao_mutations := ao_mutations ao @ [KvSet k v] \<rparr>"

definition atomic_delete :: "KvKey \<Rightarrow> AtomicOperation \<Rightarrow> AtomicOperation" where
  "atomic_delete k ao = ao\<lparr> ao_mutations := ao_mutations ao @ [KvDelete k] \<rparr>"

fun apply_mutation ::
  "Versionstamp \<Rightarrow> KvMutation \<Rightarrow> (KvKey, KvEntry) alist \<Rightarrow> (KvKey, KvEntry) alist" where
  "apply_mutation v (KvSet k x) es =
     DAList.update k \<lparr> entry_value = x, entry_versionstamp = v \<rparr> es"
| "apply_mutation v (KvDelete k) es = DAList.delete k es"

text \<open>A check holds when the key's versionstamp is the expected one (\<open>None\<close>: no entry).\<close>

definition check_holds :: "Kv \<Rightarrow> KvKey \<times> Versionstamp option \<Rightarrow> bool" where
  "check_holds kv c = (map_option entry_versionstamp (kv_get kv (fst c)) = snd c)"

text \<open>\<^verbatim>\<open>commit()\<close>: the versionstamp of the commit when it succeeds, and the store after it.\<close>

definition atomic_commit :: "AtomicOperation \<Rightarrow> Kv \<Rightarrow> Versionstamp option \<times> Kv" where
  "atomic_commit ao kv =
     (if list_all (check_holds kv) (ao_checks ao) then
        (let v = Suc (kv_clock kv) in
           (Some v, \<lparr> kv_entries = fold (apply_mutation v) (ao_mutations ao) (kv_entries kv),
                      kv_clock = v \<rparr>))
      else (None, kv))"

text \<open>\<^verbatim>\<open>kv.set(key, value)\<close> outside an atomic operation: a commit of one mutation.\<close>

definition kv_set :: "KvKey \<Rightarrow> KvValue \<Rightarrow> Kv \<Rightarrow> Kv" where
  "kv_set k x kv = snd (atomic_commit (atomic_set k x atomic) kv)"

subsection \<open>The order of keys and listings\<close>

text \<open>
  Keys are ordered part by part; parts of different types by type (byte strings, strings,
  numbers, big integers, booleans), parts of one type by value, strings by their bytes.
  A key sorts after each of its proper prefixes.
\<close>

fun lex_less :: "('a \<Rightarrow> 'a \<Rightarrow> bool) \<Rightarrow> 'a list \<Rightarrow> 'a list \<Rightarrow> bool" where
  "lex_less lt [] [] = False"
| "lex_less lt [] (y # ys) = True"
| "lex_less lt (x # xs) [] = False"
| "lex_less lt (x # xs) (y # ys) = (lt x y \<or> (x = y \<and> lex_less lt xs ys))"

fun number_less :: "number \<Rightarrow> number \<Rightarrow> bool" where
  "number_less NaN _ = False"
| "number_less _ NaN = True"
| "number_less PosInfinity _ = False"
| "number_less _ PosInfinity = True"
| "number_less _ NegInfinity = False"
| "number_less NegInfinity _ = True"
| "number_less (Finite x) (Finite y) = (x < y)"

fun part_rank :: "KvKeyPart \<Rightarrow> nat" where
  "part_rank (KBytes _) = 0"
| "part_rank (KString _) = 1"
| "part_rank (KNumber _) = 2"
| "part_rank (KBigInt _) = 3"
| "part_rank (KBoolean _) = 4"

definition char_less :: "char \<Rightarrow> char \<Rightarrow> bool" where
  "char_less a b = ((of_char a :: nat) < of_char b)"

fun part_less :: "KvKeyPart \<Rightarrow> KvKeyPart \<Rightarrow> bool" where
  "part_less (KBytes a) (KBytes b) = lex_less (<) a b"
| "part_less (KString a) (KString b) = lex_less char_less a b"
| "part_less (KNumber a) (KNumber b) = number_less a b"
| "part_less (KBigInt a) (KBigInt b) = (a < b)"
| "part_less (KBoolean a) (KBoolean b) = (\<not> a \<and> b)"
| "part_less a b = (part_rank a < part_rank b)"

definition key_less :: "KvKey \<Rightarrow> KvKey \<Rightarrow> bool" where
  "key_less a b = lex_less part_less a b"

fun insert_entry :: "KvKey \<times> KvEntry \<Rightarrow> (KvKey \<times> KvEntry) list \<Rightarrow> (KvKey \<times> KvEntry) list" where
  "insert_entry x [] = [x]"
| "insert_entry x (y # ys) =
     (if key_less (fst y) (fst x) then y # insert_entry x ys else x # y # ys)"

definition sort_entries :: "(KvKey \<times> KvEntry) list \<Rightarrow> (KvKey \<times> KvEntry) list" where
  "sort_entries xs = foldr insert_entry xs []"

text \<open>
  \<^verbatim>\<open>Deno.KvListSelector\<close>. A prefix selects the keys that extend it by at least one part;
  a range selects the keys from \<open>start\<close> (included) to \<open>end\<close> (excluded).
\<close>

datatype KvListSelector = PrefixSelector KvKey | RangeSelector KvKey KvKey

fun selects :: "KvListSelector \<Rightarrow> KvKey \<Rightarrow> bool" where
  "selects (PrefixSelector p) k = strict_prefix p k"
| "selects (RangeSelector s e) k = (\<not> key_less k s \<and> key_less k e)"

text \<open>\<^verbatim>\<open>kv.list(selector)\<close> with no options: all selected entries, in key order.\<close>

definition kv_list :: "Kv \<Rightarrow> KvListSelector \<Rightarrow> (KvKey \<times> KvEntry) list" where
  "kv_list kv sel =
     sort_entries (filter (\<lambda>x. selects sel (fst x)) (DAList.impl_of (kv_entries kv)))"

section \<open>Key layout (utils.ts)\<close>

definition getDocPrefix :: "string \<Rightarrow> KvKey" where
  "getDocPrefix namespace = [KString namespace, KString ''doc'']"

definition getViewRefPrefix :: "string \<Rightarrow> string \<Rightarrow> KvKey" where
  "getViewRefPrefix namespace viewName = [KString namespace, KString ''viewref'', KString viewName]"

definition getDocumentKey :: "string \<Rightarrow> string \<Rightarrow> KvKey" where
  "getDocumentKey namespace docId = getDocPrefix namespace @ [KString docId]"

definition getDesignKey :: "string \<Rightarrow> string \<Rightarrow> KvKey" where
  "getDesignKey namespace viewName = [KString namespace, KString ''design'', KString viewName]"

definition getViewKey :: "string \<Rightarrow> string \<Rightarrow> KvKey" where
  "getViewKey namespace viewName = [KString namespace, KString ''view'', KString viewName]"

definition getViewRefKey :: "string \<Rightarrow> string \<Rightarrow> string \<Rightarrow> KvKey" where
  "getViewRefKey namespace viewName docId = getViewRefPrefix namespace viewName @ [KString docId]"


section \<open>The database (cushion.ts)\<close>

text \<open>
  \<^verbatim>\<open>ViewEmitKey\<close> is one key part or an array of parts. A map function is a callable
  value; what the program observes of it is its text (\<^verbatim>\<open>fn.toString()\<close>, which the
  signature is computed from) and, for a document, the sequence of \<^verbatim>\<open>emit(key, value)\<close>
  calls it makes. The model takes map functions to be pure: the calls depend on the
  document alone, and an omitted second argument is \<open>JUndefined\<close>.
\<close>

datatype ViewEmitKey = EmitPart KvKeyPart | EmitParts "KvKeyPart list"

record MapFunction =
  fn_text :: string
  fn_emits :: "Document \<Rightarrow> (ViewEmitKey \<times> jval) list"

type_synonym ReduceFunction = "(KvKey \<times> KvKeyPart) list \<Rightarrow> ViewRow list \<Rightarrow> jval"

record ViewLogic =
  vl_map :: MapFunction
  vl_reduce :: "ReduceFunction option"

text \<open>
  The fields of class \<^verbatim>\<open>Cushion\<close>. The registry \<^verbatim>\<open>#views\<close> is a \<^verbatim>\<open>Map\<close>, iterated in the
  order of first insertion: an association list. The counter \<open>c_mapCalls\<close> is not a field
  of the class; it counts the invocations of map functions, an effect the program has
  and its state does not show.
\<close>

record Cushion =
  c_kv :: Kv
  c_namespace :: string
  c_views :: "(string \<times> ViewLogic) list"
  c_mapCalls :: nat

definition Cushion_open :: "string \<Rightarrow> Kv \<Rightarrow> Cushion" where
  "Cushion_open namespace kv =
     \<lparr> c_kv = kv, c_namespace = namespace, c_views = [], c_mapCalls = 0 \<rparr>"

datatype CushionError =
    UnexpectedRev
  | DuplicateDocument
  | RevisionConflict
  | UndefinedView
  | NotImplemented

record InsertResult =
  ir_ok :: bool
  ir_id :: string
  ir_rev :: Versionstamp

text \<open>
  \<^verbatim>\<open>get(id)\<close>: the stored value with \<^verbatim>\<open>_rev\<close> set to the versionstamp of the key. A document
  key only ever holds a document; the cast of the source has no other case.
\<close>

definition Cushion_get :: "string \<Rightarrow> Cushion \<Rightarrow> Document option" where
  "Cushion_get docId db =
     (case kv_get (c_kv db) (getDocumentKey (c_namespace db) docId) of
        None \<Rightarrow> None
      | Some e \<Rightarrow>
          (case entry_value e of
             DocValue d \<Rightarrow> Some (d(''_rev'' \<mapsto> JStamp (entry_versionstamp e)))
           | _ \<Rightarrow> None))"

text \<open>
  The closure \<^verbatim>\<open>emit\<close> of \<^verbatim>\<open>updateViewsForDoc\<close> and \<^verbatim>\<open>rebuildView\<close>: every call builds the
  composite key \<^verbatim>\<open>[...viewPrefix, ...keyParts, docId]\<close> and the row
  \<^verbatim>\<open>{ value: value ?? null, doc }\<close>. \<open>emit_rows\<close> is the list of these pairs for the calls
  the map function makes on \<open>doc\<close>, in the order of the calls.
\<close>

fun keyParts :: "ViewEmitKey \<Rightarrow> KvKeyPart list" where
  "keyParts (EmitPart p) = [p]"
| "keyParts (EmitParts ps) = ps"

definition nullish_to_null :: "jval \<Rightarrow> jval" where
  "nullish_to_null v = (if v = JUndefined \<or> v = JNull then JNull else v)"

definition emit_row :: "KvKey \<Rightarrow> string \<Rightarrow> Document \<Rightarrow> ViewEmitKey \<times> jval \<Rightarrow> KvKey \<times> ViewRow" where
  "emit_row viewPrefix docId doc c =
     (viewPrefix @ keyParts (fst c) @ [KString docId],
      \<lparr> row_value = nullish_to_null (snd c), row_doc = doc \<rparr>)"

definition emit_rows :: "MapFunction \<Rightarrow> KvKey \<Rightarrow> string \<Rightarrow> Document \<Rightarrow> (KvKey \<times> ViewRow) list" where
  "emit_rows mapper viewPrefix docId doc =
     map (emit_row viewPrefix docId doc) (fn_emits mapper doc)"

definition set_rows :: "(KvKey \<times> ViewRow) list \<Rightarrow> AtomicOperation \<Rightarrow> AtomicOperation" where
  "set_rows rows ao = fold (\<lambda>r. atomic_set (fst r) (RowValue (snd r))) rows ao"

text \<open>
  \<^verbatim>\<open>kv.get<Deno.KvKey[]>(refKey)\<close> followed by the test \<^verbatim>\<open>if (existing.value)\<close>: the keys
  the back-reference names, none when there is no back-reference.
\<close>

definition existing_keys :: "Kv \<Rightarrow> KvKey \<Rightarrow> KvKey list" where
  "existing_keys kv refKey =
     (case kv_get kv refKey of
        None \<Rightarrow> []
      | Some e \<Rightarrow> (case entry_value e of RefValue ks \<Rightarrow> ks | _ \<Rightarrow> []))"

text \<open>
  \<^verbatim>\<open>updateViewsForDoc\<close>: the body of the loop over the registry for one view, and the loop.
  \<open>doc = None\<close> is the argument \<^verbatim>\<open>null\<close>.
\<close>

definition updateViewForDoc :: "string \<Rightarrow> MapFunction \<Rightarrow> string \<Rightarrow> Document option \<Rightarrow> Cushion \<Rightarrow> Cushion" where
  "updateViewForDoc viewName mapper docId doc db =
     (let viewPrefix = getViewKey (c_namespace db) viewName;
          refKey = getViewRefKey (c_namespace db) viewName docId;
          deleted = fold atomic_delete (existing_keys (c_kv db) refKey) atomic
      in case doc of
           None \<Rightarrow>
             db\<lparr> c_kv := snd (atomic_commit (atomic_delete refKey deleted) (c_kv db)) \<rparr>
         | Some d \<Rightarrow>
             (let rows = emit_rows mapper viewPrefix docId d;
                  ao = atomic_set refKey (RefValue (map fst rows)) (set_rows rows deleted)
              in db\<lparr> c_kv := snd (atomic_commit ao (c_kv db)),
                     c_mapCalls := Suc (c_mapCalls db) \<rparr>))"

fun updateViews_loop :: "(string \<times> ViewLogic) list \<Rightarrow> string \<Rightarrow> Document option \<Rightarrow> Cushion \<Rightarrow> Cushion" where
  "updateViews_loop [] docId doc db = db"
| "updateViews_loop (v # vs) docId doc db =
     updateViews_loop vs docId doc (updateViewForDoc (fst v) (vl_map (snd v)) docId doc db)"

definition updateViewsForDoc :: "string \<Rightarrow> Document option \<Rightarrow> Cushion \<Rightarrow> Cushion" where
  "updateViewsForDoc docId doc db = updateViews_loop (c_views db) docId doc db"

text \<open>
  \<^verbatim>\<open>insert(doc)\<close>. \<open>uuid\<close> is the value \<^verbatim>\<open>crypto.randomUUID()\<close> returns when it is called.
  The type \<^verbatim>\<open>MaybeDocument\<close> makes \<^verbatim>\<open>_id\<close> a string when it is defined, so a truthy \<^verbatim>\<open>_id\<close> is
  a non-empty string.
\<close>

definition insert_id :: "Document \<Rightarrow> string \<Rightarrow> string" where
  "insert_id doc uuid =
     (case doc ''_id'' of
        None \<Rightarrow> uuid
      | Some v \<Rightarrow> if truthy v then (case v of JString s \<Rightarrow> s | _ \<Rightarrow> uuid) else uuid)"

definition Cushion_insert :: "string \<Rightarrow> Document \<Rightarrow> Cushion \<Rightarrow> (CushionError + InsertResult) \<times> Cushion" where
  "Cushion_insert uuid doc db =
     (let docId = insert_id doc uuid in
      if doc ''_rev'' \<noteq> None then (Inl UnexpectedRev, db)
      else
        (let k = getDocumentKey (c_namespace db) docId;
             initialiser = doc(''_id'' \<mapsto> JString docId);
             result = atomic_commit (atomic_set k (DocValue initialiser) (atomic_check k None atomic)) (c_kv db)
         in case fst result of
              None \<Rightarrow> (Inl DuplicateDocument, db\<lparr> c_kv := snd result \<rparr>)
            | Some v \<Rightarrow>
                (Inr \<lparr> ir_ok = True, ir_id = docId, ir_rev = v \<rparr>,
                 updateViewsForDoc docId (Some (initialiser(''_rev'' \<mapsto> JStamp v)))
                   (db\<lparr> c_kv := snd result \<rparr>))))"

text \<open>\<^verbatim>\<open>replace(id, rev, doc)\<close>.\<close>

definition Cushion_replace :: "string \<Rightarrow> Versionstamp \<Rightarrow> Document \<Rightarrow> Cushion \<Rightarrow> (CushionError + InsertResult) \<times> Cushion" where
  "Cushion_replace docId rev' doc db =
     (let k = getDocumentKey (c_namespace db) docId;
          rest = doc(''_rev'' := None);
          updated = rest(''_id'' \<mapsto> JString docId);
          result = atomic_commit (atomic_set k (DocValue updated) (atomic_check k (Some rev') atomic)) (c_kv db)
      in case fst result of
           None \<Rightarrow> (Inl RevisionConflict, db\<lparr> c_kv := snd result \<rparr>)
         | Some v \<Rightarrow>
             (Inr \<lparr> ir_ok = True, ir_id = docId, ir_rev = v \<rparr>,
              updateViewsForDoc docId (Some (updated(''_rev'' \<mapsto> JStamp v)))
                (db\<lparr> c_kv := snd result \<rparr>)))"

text \<open>\<^verbatim>\<open>remove(id, rev)\<close>; the result \<open>True\<close> is \<^verbatim>\<open>{ ok: true }\<close>.\<close>

definition Cushion_remove :: "string \<Rightarrow> Versionstamp \<Rightarrow> Cushion \<Rightarrow> (CushionError + bool) \<times> Cushion" where
  "Cushion_remove docId rev' db =
     (let k = getDocumentKey (c_namespace db) docId;
          result = atomic_commit (atomic_delete k (atomic_check k (Some rev') atomic)) (c_kv db)
      in case fst result of
           None \<Rightarrow> (Inl RevisionConflict, db\<lparr> c_kv := snd result \<rparr>)
         | Some v \<Rightarrow> (Inr True, updateViewsForDoc docId None (db\<lparr> c_kv := snd result \<rparr>)))"

subsection \<open>Defining and rebuilding views\<close>

text \<open>
  \<^verbatim>\<open>#hashFunction\<close>: the hexadecimal SHA-256 digest of the text of the function. The digest
  is a parameter: nothing below depends on how it is computed.
\<close>

definition hashFunction :: "(string \<Rightarrow> string) \<Rightarrow> MapFunction \<Rightarrow> string" where
  "hashFunction sha256 fn = sha256 (fn_text fn)"

definition BATCH_SIZE :: nat where
  "BATCH_SIZE = 1000"

text \<open>
  The first part of \<^verbatim>\<open>rebuildView\<close>: the inner loop over the entries of one listing, with
  the store, the pending atomic operation and its counter as the state of the loop.
  A listing is read as the loop over it starts; the commits inside the loop delete keys
  the listing has already passed.
\<close>

fun delete_entries :: "KvKey list \<Rightarrow> Kv \<times> AtomicOperation \<times> nat \<Rightarrow> Kv \<times> AtomicOperation \<times> nat" where
  "delete_entries [] st = st"
| "delete_entries (k # ks) (kv, deleteAtomic, deleteCount) =
     (if deleteCount + 1 \<ge> BATCH_SIZE then
        delete_entries ks (snd (atomic_commit (atomic_delete k deleteAtomic) kv), atomic, 0)
      else delete_entries ks (kv, atomic_delete k deleteAtomic, deleteCount + 1))"

definition delete_prefix :: "KvKey \<Rightarrow> Kv \<times> AtomicOperation \<times> nat \<Rightarrow> Kv \<times> AtomicOperation \<times> nat" where
  "delete_prefix p st = delete_entries (map fst (kv_list (fst st) (PrefixSelector p))) st"

definition commit_rest :: "Kv \<times> AtomicOperation \<times> nat \<Rightarrow> Kv" where
  "commit_rest st =
     (case st of (kv, ao, n) \<Rightarrow> if n > 0 then snd (atomic_commit ao kv) else kv)"

definition rebuild_delete :: "string \<Rightarrow> string \<Rightarrow> Kv \<Rightarrow> Kv" where
  "rebuild_delete namespace viewName kv =
     commit_rest
       (delete_prefix (getViewRefPrefix namespace viewName)
         (delete_prefix (getViewKey namespace viewName) (kv, atomic, 0)))"

text \<open>
  The second part: the loop over the documents. The id of a row is \<^verbatim>\<open>doc._id\<close>, a string
  by the type \<^verbatim>\<open>Document\<close>. The last component of the state counts the calls of the map
  function.
\<close>

definition document_id :: "Document \<Rightarrow> string" where
  "document_id doc = (case doc ''_id'' of Some (JString s) \<Rightarrow> s | _ \<Rightarrow> [])"

fun map_documents ::
  "string \<Rightarrow> string \<Rightarrow> MapFunction \<Rightarrow> KvValue list \<Rightarrow> (Kv \<times> AtomicOperation \<times> nat) \<times> nat
     \<Rightarrow> (Kv \<times> AtomicOperation \<times> nat) \<times> nat" where
  "map_documents namespace viewName mapper [] st = st"
| "map_documents namespace viewName mapper (DocValue doc # ds) ((kv, batch, batchSize), calls) =
     (let rows = emit_rows mapper (getViewKey namespace viewName) (document_id doc) doc;
          refKey = getViewRefKey namespace viewName (document_id doc);
          batch' = atomic_set refKey (RefValue (map fst rows)) (set_rows rows batch);
          batchSize' = batchSize + length rows + 1
      in if batchSize' \<ge> BATCH_SIZE then
           map_documents namespace viewName mapper ds
             ((snd (atomic_commit batch' kv), atomic, 0), Suc calls)
         else map_documents namespace viewName mapper ds ((kv, batch', batchSize'), Suc calls))"
| "map_documents namespace viewName mapper (_ # ds) st =
     map_documents namespace viewName mapper ds st"

definition rebuild_map :: "string \<Rightarrow> string \<Rightarrow> MapFunction \<Rightarrow> Kv \<times> nat \<Rightarrow> Kv \<times> nat" where
  "rebuild_map namespace viewName mapper s =
     (let docs = map (\<lambda>x. entry_value (snd x)) (kv_list (fst s) (PrefixSelector (getDocPrefix namespace)));
          st = map_documents namespace viewName mapper docs ((fst s, atomic, 0), snd s)
      in (commit_rest (fst st), snd st))"

definition rebuildView :: "string \<Rightarrow> MapFunction \<Rightarrow> string \<Rightarrow> Cushion \<Rightarrow> Cushion" where
  "rebuildView viewName mapper signature db =
     (let cleared = rebuild_delete (c_namespace db) viewName (c_kv db);
          mapped = rebuild_map (c_namespace db) viewName mapper (cleared, c_mapCalls db);
          designKey = getDesignKey (c_namespace db) viewName
      in db\<lparr> c_kv := kv_set designKey
                        (DesignValue \<lparr> vs_signature = signature, vs_state = Ready \<rparr>) (fst mapped),
             c_mapCalls := snd mapped \<rparr>)"

text \<open>\<^verbatim>\<open>kv.get<ViewState>(design)\<close>: the design record, if there is one.\<close>

definition design_record :: "Kv \<Rightarrow> KvKey \<Rightarrow> ViewState option" where
  "design_record kv design =
     (case kv_get kv design of
        None \<Rightarrow> None
      | Some e \<Rightarrow> (case entry_value e of DesignValue s \<Rightarrow> Some s | _ \<Rightarrow> None))"

definition Cushion_defineView ::
  "(string \<Rightarrow> string) \<Rightarrow> string \<Rightarrow> MapFunction \<Rightarrow> ReduceFunction option \<Rightarrow> Cushion \<Rightarrow> Cushion" where
  "Cushion_defineView sha256 viewName mapper reducer db =
     (let db' = db\<lparr> c_views := AList.update viewName \<lparr> vl_map = mapper, vl_reduce = reducer \<rparr> (c_views db) \<rparr>;
          viewSignature = hashFunction sha256 mapper;
          design = getDesignKey (c_namespace db) viewName;
          val = design_record (c_kv db') design
      in if map_option vs_signature val = Some viewSignature then db'
         else if map_option vs_state val = Some Building then db'
         else rebuildView viewName mapper viewSignature db')"


subsection \<open>Queries\<close>

text \<open>
  \<^verbatim>\<open>kv.list(selector, options)\<close> with the options \<^verbatim>\<open>reverse\<close> and \<^verbatim>\<open>limit\<close>. The store
  rejects a limit that is not positive (\<open>None\<close>); the limit \<^verbatim>\<open>Infinity\<close> keeps every entry.
\<close>

record KvListOptions =
  lo_reverse :: bool
  lo_limit :: number

definition kv_list_options :: "Kv \<Rightarrow> KvListSelector \<Rightarrow> KvListOptions \<Rightarrow> (KvKey \<times> KvEntry) list option" where
  "kv_list_options kv sel opts =
     (let entries = (if lo_reverse opts then rev (kv_list kv sel) else kv_list kv sel) in
      case lo_limit opts of
        PosInfinity \<Rightarrow> Some entries
      | Finite x \<Rightarrow> if x \<le> 0 then None else Some (take (nat \<lfloor>x\<rfloor>) entries)
      | _ \<Rightarrow> None)"

text \<open>Addition of numbers, and the truthiness of a number.\<close>

fun number_add :: "number \<Rightarrow> number \<Rightarrow> number" where
  "number_add NaN _ = NaN"
| "number_add _ NaN = NaN"
| "number_add PosInfinity NegInfinity = NaN"
| "number_add NegInfinity PosInfinity = NaN"
| "number_add PosInfinity _ = PosInfinity"
| "number_add _ PosInfinity = PosInfinity"
| "number_add NegInfinity _ = NegInfinity"
| "number_add _ NegInfinity = NegInfinity"
| "number_add (Finite x) (Finite y) = Finite (x + y)"

definition number_truthy :: "number \<Rightarrow> bool" where
  "number_truthy n = (n \<noteq> NaN \<and> n \<noteq> Finite 0)"

text \<open>The rows a query yields: a map row, with \<^verbatim>\<open>doc\<close> present when documents are included.\<close>

record MapRow =
  mr_key :: KvKey
  mr_id :: KvKeyPart
  mr_value :: jval
  mr_doc :: "Document option"

text \<open>
  The selector of \<^verbatim>\<open>query\<close> for a shape: the \<^verbatim>\<open>switch\<close> over \<^verbatim>\<open>params.type\<close>. A document id
  bound is appended when it is truthy, that is, a non-empty string.
\<close>

definition with_doc_id :: "KvKey \<Rightarrow> string option \<Rightarrow> KvKey" where
  "with_doc_id k docId = (case docId of None \<Rightarrow> k | Some s \<Rightarrow> if s = [] then k else k @ [KString s])"

fun query_selector :: "KvKey \<Rightarrow> QueryShape \<Rightarrow> CushionError + KvListSelector" where
  "query_selector viewPrefix (KeyShape k) = Inr (PrefixSelector (viewPrefix @ [KString k]))"
| "query_selector viewPrefix (PrefixShape p) = Inr (PrefixSelector (viewPrefix @ p))"
| "query_selector viewPrefix (RangeShape startKey endKey startKeyDocId endKeyDocId groupLevel) =
     Inr (RangeSelector (with_doc_id (viewPrefix @ startKey) startKeyDocId)
                        (with_doc_id (viewPrefix @ endKey) endKeyDocId))"
| "query_selector viewPrefix (ScanShape groupLevel) = Inr (PrefixSelector viewPrefix)"
| "query_selector viewPrefix (KeysShape ks) = Inl NotImplemented"

text \<open>
  The map-only case: the loop over the entries, which passes over the first \<^verbatim>\<open>skip\<close>
  entries and yields a row for every other one. Only rows stand under the prefix of a
  view; an entry of another kind has no \<^verbatim>\<open>value\<close> and no \<^verbatim>\<open>doc\<close>.
\<close>

definition query_row :: "KvKey \<Rightarrow> bool \<Rightarrow> KvKey \<times> KvEntry \<Rightarrow> MapRow" where
  "query_row viewPrefix includeDocs entry =
     (case entry_value (snd entry) of
        RowValue r \<Rightarrow>
          \<lparr> mr_key = butlast (drop (length viewPrefix) (fst entry)), mr_id = last (fst entry),
            mr_value = row_value r, mr_doc = (if includeDocs then Some (row_doc r) else None) \<rparr>
      | _ \<Rightarrow>
          \<lparr> mr_key = butlast (drop (length viewPrefix) (fst entry)), mr_id = last (fst entry),
            mr_value = JUndefined, mr_doc = None \<rparr>)"

fun query_map_loop :: "KvKey \<Rightarrow> bool \<Rightarrow> number \<Rightarrow> nat \<Rightarrow> (KvKey \<times> KvEntry) list \<Rightarrow> MapRow list" where
  "query_map_loop viewPrefix includeDocs skip skipped [] = []"
| "query_map_loop viewPrefix includeDocs skip skipped (entry # entries) =
     (if number_gt skip (Finite (real skipped)) then
        query_map_loop viewPrefix includeDocs skip (Suc skipped) entries
      else query_row viewPrefix includeDocs entry #
           query_map_loop viewPrefix includeDocs skip skipped entries)"

text \<open>
  \<^verbatim>\<open>query(viewQuery)\<close>. The rows of the reduce case come from the private method
  \<^verbatim>\<open>#queryReduce\<close>, which no property below speaks of: it is the parameter \<open>queryReduce\<close>.
  \<open>ListRejected\<close> is the error of the store for a limit that is not positive.
\<close>

datatype 'r QueryResult = MapRows "MapRow list" | ReduceRows 'r

datatype QueryError = CushionFailure CushionError | ListRejected

definition Cushion_query ::
  "((KvKey \<times> KvEntry) list \<Rightarrow> ReduceFunction \<Rightarrow> ViewQueryParameters \<Rightarrow> 'r) \<Rightarrow> ViewQuery \<Rightarrow> Cushion
     \<Rightarrow> QueryError + 'r QueryResult" where
  "Cushion_query queryReduce viewQuery db =
     (let params = ViewQuery_getParams viewQuery;
          viewPrefix = getViewKey (c_namespace db) (p_viewName params)
      in case map_of (c_views db) (p_viewName params) of
           None \<Rightarrow> Inl (CushionFailure UndefinedView)
         | Some viewDef \<Rightarrow>
             (case query_selector viewPrefix (p_shape params) of
                Inl e \<Rightarrow> Inl (CushionFailure e)
              | Inr selector \<Rightarrow>
                  (case kv_list_options (c_kv db) selector
                          \<lparr> lo_reverse = p_descending params,
                            lo_limit = (if number_truthy (p_skip params)
                                        then number_add (p_limit params) (p_skip params)
                                        else p_limit params) \<rparr> of
                     None \<Rightarrow> Inl ListRejected
                   | Some entries \<Rightarrow>
                       (case vl_reduce viewDef of
                          Some reduceFn \<Rightarrow>
                            if p_reduce params then Inr (ReduceRows (queryReduce entries reduceFn params))
                            else Inr (MapRows (query_map_loop viewPrefix (p_includeDocs params)
                                                 (p_skip params) 0 entries))
                        | None \<Rightarrow>
                            Inr (MapRows (query_map_loop viewPrefix (p_includeDocs params)
                                            (p_skip params) 0 entries))))))"

section \<open>Vocabulary of the properties\<close>

text \<open>
  The second part of a key tells the kind of the key: \<open>doc\<close>, \<open>design\<close>, \<open>view\<close> or
  \<open>viewref\<close>.
\<close>

definition key_kind :: "KvKey \<Rightarrow> string" where
  "key_kind k = (case k of _ # KString s # _ \<Rightarrow> s | _ \<Rightarrow> [])"

text \<open>
  A well-formedness condition on stores: the keys a back-reference names are keys of
  view rows. It holds of the empty store and every operation of the database keeps it;
  without it, the deletions of \<^verbatim>\<open>updateViewsForDoc\<close> could hit a document.
\<close>

definition names_rows :: "KvValue \<Rightarrow> bool" where
  "names_rows x = (case x of RefValue ks \<Rightarrow> list_all (\<lambda>k. key_kind k = ''view'') ks | _ \<Rightarrow> True)"

definition refs_name_rows :: "Kv \<Rightarrow> bool" where
  "refs_name_rows kv =
     list_all (\<lambda>x. names_rows (entry_value (snd x))) (DAList.impl_of (kv_entries kv))"

fun mutation_key :: "KvMutation \<Rightarrow> KvKey" where
  "mutation_key (KvSet k _) = k"
| "mutation_key (KvDelete k) = k"

fun mutation_names_rows :: "KvMutation \<Rightarrow> bool" where
  "mutation_names_rows (KvSet k x) = names_rows x"
| "mutation_names_rows (KvDelete k) = True"

text \<open>The mutations of the atomic operation that \<open>updateViewForDoc\<close> commits.\<close>

definition update_mutations ::
  "string \<Rightarrow> string \<Rightarrow> MapFunction \<Rightarrow> string \<Rightarrow> Document option \<Rightarrow> Kv \<Rightarrow> KvMutation list" where
  "update_mutations namespace viewName mapper docId doc kv =
     map KvDelete (existing_keys kv (getViewRefKey namespace viewName docId)) @
     (case doc of
        None \<Rightarrow> [KvDelete (getViewRefKey namespace viewName docId)]
      | Some d \<Rightarrow>
          map (\<lambda>r. KvSet (fst r) (RowValue (snd r)))
            (emit_rows mapper (getViewKey namespace viewName) docId d) @
          [KvSet (getViewRefKey namespace viewName docId)
             (RefValue (map fst (emit_rows mapper (getViewKey namespace viewName) docId d)))])"

subsection \<open>A test database\<close>

text \<open>
  The view \<^verbatim>\<open>by-name\<close> of the test suite, which emits the name of every document of type
  \<^verbatim>\<open>user\<close>; a database with this view defined on an empty store; the document of the
  tests; and the database after the document is inserted.
\<close>

definition by_name :: MapFunction where
  "by_name =
     \<lparr> fn_text = ''(doc, emit) => { if (doc.type === USER) emit(doc.name); }'',
       fn_emits = (\<lambda>doc.
          if doc ''type'' \<noteq> Some (JString ''user'') then []
          else (case doc ''name'' of
                  Some (JString s) \<Rightarrow> [(EmitPart (KString s), JUndefined)]
                | _ \<Rightarrow> [])) \<rparr>"

definition test_db :: Cushion where
  "test_db = Cushion_defineView (\<lambda>text. text) ''by-name'' by_name None (Cushion_open ''test'' kv_empty)"

definition alice :: Document where
  "alice = [''_id'' \<mapsto> JString ''alice'', ''type'' \<mapsto> JString ''user'', ''name'' \<mapsto> JString ''Alice'']"

definition test_db_alice :: Cushion where
  "test_db_alice = snd (Cushion_insert ''6f1c'' alice test_db)"


subsection \<open>The views and the documents\<close>

text \<open>
  The value a key holds. The effect of a mutation on the values, written on maps.
\<close>

definition kvv :: "Kv \<Rightarrow> KvKey \<Rightarrow> KvValue option" where
  "kvv kv k = map_option entry_value (kv_get kv k)"

fun mutation_map :: "KvMutation \<Rightarrow> (KvKey \<rightharpoonup> KvValue) \<Rightarrow> (KvKey \<rightharpoonup> KvValue)" where
  "mutation_map (KvSet k x) m = m(k \<mapsto> x)"
| "mutation_map (KvDelete k) m = m(k := None)"

text \<open>
  What the rows and the back-references of a view should be, when \<open>g\<close> gives the live
  documents by id. The row at a composite key \<open>k\<close> whose last part is the id of a live
  document \<open>d\<close> is the row of the last \<^verbatim>\<open>emit\<close> call of the map function on \<open>d\<close> that built
  \<open>k\<close>: the sets of one atomic operation apply in order, and a later one replaces an
  earlier one on the same key. No row stands at a key whose last part is not the id of a
  live document. The back-reference of a live document lists the composite keys of all
  the \<^verbatim>\<open>emit\<close> calls, in order; a document that is not live has none.
\<close>

definition expected_row :: "KvKey \<Rightarrow> MapFunction \<Rightarrow> (string \<Rightarrow> Document option) \<Rightarrow> KvKey \<Rightarrow> KvValue option" where
  "expected_row viewPrefix mapper g k =
     (case last k of
        KString docId \<Rightarrow>
          (case g docId of
             None \<Rightarrow> None
           | Some d \<Rightarrow> map_option RowValue (map_of (rev (emit_rows mapper viewPrefix docId d)) k))
      | _ \<Rightarrow> None)"

definition expected_ref :: "KvKey \<Rightarrow> MapFunction \<Rightarrow> (string \<Rightarrow> Document option) \<Rightarrow> string \<Rightarrow> KvValue option" where
  "expected_ref viewPrefix mapper g docId =
     map_option (\<lambda>d. RefValue (map fst (emit_rows mapper viewPrefix docId d))) (g docId)"

text \<open>
  A view is consistent with an assignment \<open>g\<close> of documents to ids when its
  back-references and the rows under its prefix are the expected ones.
\<close>

definition view_ok :: "string \<Rightarrow> string \<Rightarrow> MapFunction \<Rightarrow> (string \<Rightarrow> Document option) \<Rightarrow> (KvKey \<rightharpoonup> KvValue) \<Rightarrow> bool" where
  "view_ok ns v mapper g m =
     ((\<forall>docId. m (getViewRefKey ns v docId) = expected_ref (getViewKey ns v) mapper g docId) \<and>
      (\<forall>k. strict_prefix (getViewKey ns v) k \<longrightarrow> m k = expected_row (getViewKey ns v) mapper g k))"

text \<open>
  The invariant of the database: every registered view is consistent with the documents
  as \<^verbatim>\<open>get\<close> returns them, the names of the registry are distinct, and back-references
  name rows.
\<close>

definition consistent :: "Cushion \<Rightarrow> bool" where
  "consistent db =
     (refs_name_rows (c_kv db) \<and> distinct (map fst (c_views db)) \<and>
      (\<forall>x \<in> set (c_views db).
         view_ok (c_namespace db) (fst x) (vl_map (snd x)) (\<lambda>i. Cushion_get i db) (kvv (c_kv db))))"

text \<open>
  A mutation of the document store, with the arguments of the call (\<open>Insert\<close> carries the
  identifier the generator would return), and a sequence of them run one after the other.
  A call that fails leaves the database as it was.
\<close>

datatype operation =
    Insert string Document
  | Replace string Versionstamp Document
  | Remove string Versionstamp

fun run_operation :: "Cushion \<Rightarrow> operation \<Rightarrow> Cushion" where
  "run_operation db (Insert uuid doc) = snd (Cushion_insert uuid doc db)"
| "run_operation db (Replace docId rev' doc) = snd (Cushion_replace docId rev' doc db)"
| "run_operation db (Remove docId rev') = snd (Cushion_remove docId rev' db)"

text \<open>A list of \<^verbatim>\<open>defineView(name, map, reduce)\<close> calls, run in order.\<close>

fun define_views :: "(string \<Rightarrow> string) \<Rightarrow> (string \<times> MapFunction \<times> ReduceFunction option) list \<Rightarrow> Cushion \<Rightarrow> Cushion" where
  "define_views digest [] db = db"
| "define_views digest (x # xs) db =
     define_views digest xs (Cushion_defineView digest (fst x) (fst (snd x)) (snd (snd x)) db)"

text \<open>A store that holds design records only, as after defining views on an empty store.\<close>

definition only_design :: "Kv \<Rightarrow> bool" where
  "only_design kv =
     (\<forall>k e. kv_get kv k = Some e \<longrightarrow> key_kind k = ''design'' \<and> (\<exists>s. entry_value e = DesignValue s))"

text \<open>
  A view whose map function emits the name of the document twice, with the values 1 and
  2, and the test database with this view and the test document.
\<close>

definition twice :: MapFunction where
  "twice =
     \<lparr> fn_text = ''(doc, emit) => { emit(doc.name, 1); emit(doc.name, 2); }'',
       fn_emits = (\<lambda>doc.
          case doc ''name'' of
            Some (JString s) \<Rightarrow>
              [(EmitPart (KString s), JNumber (Finite 1)), (EmitPart (KString s), JNumber (Finite 2))]
          | _ \<Rightarrow> []) \<rparr>"

definition test_db_twice :: Cushion where
  "test_db_twice =
     foldl run_operation
       (define_views (\<lambda>text. text) [(''twice'', twice, None)] (Cushion_open ''test'' kv_empty))
       [Insert ''6f1c'' alice]"

subsection \<open>Snapshots of documents in rows\<close>

text \<open>
  The state of a batched loop of \<^verbatim>\<open>#rebuildView\<close> is the store, the pending atomic
  operation and the count of its mutations. \<open>flushed\<close> is the content of the store once the
  pending operation is committed; \<open>batch_ok\<close> says that the pending operation has no check
  and that the count is the number of its mutations.
\<close>

definition flushed :: "Kv \<times> AtomicOperation \<times> nat \<Rightarrow> KvKey \<Rightarrow> KvValue option" where
  "flushed st = fold mutation_map (ao_mutations (fst (snd st))) (kvv (fst st))"

definition batch_ok :: "Kv \<times> AtomicOperation \<times> nat \<Rightarrow> bool" where
  "batch_ok st = (ao_checks (fst (snd st)) = [] \<and> snd (snd st) = length (ao_mutations (fst (snd st))))"

text \<open>The mutations \<^verbatim>\<open>#rebuildView\<close> queues for one entry of the listing of the documents.\<close>

definition doc_mutations :: "string \<Rightarrow> string \<Rightarrow> MapFunction \<Rightarrow> KvValue \<Rightarrow> KvMutation list" where
  "doc_mutations namespace viewName mapper x =
     (case x of
        DocValue doc \<Rightarrow>
          map (\<lambda>r. KvSet (fst r) (RowValue (snd r)))
            (emit_rows mapper (getViewKey namespace viewName) (document_id doc) doc) @
          [KvSet (getViewRefKey namespace viewName (document_id doc))
             (RefValue (map fst (emit_rows mapper (getViewKey namespace viewName) (document_id doc) doc)))]
      | _ \<Rightarrow> [])"

text \<open>
  No stored document holds \<^verbatim>\<open>_rev\<close>: \<^verbatim>\<open>insert\<close> rejects a document with \<^verbatim>\<open>_rev\<close> and \<^verbatim>\<open>replace\<close>
  strips it before it writes.
\<close>

definition docs_no_rev :: "Kv \<Rightarrow> bool" where
  "docs_no_rev kv =
     list_all (\<lambda>x. case entry_value (snd x) of DocValue d \<Rightarrow> d ''_rev'' = None | _ \<Rightarrow> True)
       (DAList.impl_of (kv_entries kv))"

text \<open>The query \<^verbatim>\<open>ViewQuery.for(viewName).includeDocs()\<close>.\<close>

definition docs_query :: "string \<Rightarrow> ViewQuery" where
  "docs_query viewName = ViewQuery_includeDocs True (ViewQuery_for viewName)"

text \<open>
  The invariant of the views with respect to snapshots \<open>G\<close>: for every view \<open>v\<close> of the
  registry, the rows and the back-references of \<open>v\<close> are those of the documents \<open>G v\<close>
  gives. The snapshots of two views may differ: a rebuild of one view renews the
  snapshots of that view only.
\<close>

definition views_consistent :: "(string \<Rightarrow> string \<Rightarrow> Document option) \<Rightarrow> Cushion \<Rightarrow> bool" where
  "views_consistent G db =
     (refs_name_rows (c_kv db) \<and> distinct (map fst (c_views db)) \<and>
      (\<forall>x \<in> set (c_views db).
         view_ok (c_namespace db) (fst x) (vl_map (snd x)) (G (fst x)) (kvv (c_kv db))))"

text \<open>
  The test database after \<^verbatim>\<open>replace("alice", 2, alicia)\<close>, and after a rebuild of its view.
\<close>

definition alicia :: Document where
  "alicia = [''type'' \<mapsto> JString ''user'', ''name'' \<mapsto> JString ''Alicia'']"

definition test_db_alicia :: Cushion where
  "test_db_alicia = snd (Cushion_replace ''alice'' 2 alicia test_db_alice)"

definition test_db_rebuilt :: Cushion where
  "test_db_rebuilt = rebuildView ''by-name'' by_name (fn_text by_name) test_db_alice"

subsection \<open>Views that are current\<close>

text \<open>
  The value stored under the key of a document: what \<^verbatim>\<open>get\<close> returns, before \<^verbatim>\<open>_rev\<close> is
  attached. A snapshot \<open>g\<close> of the documents gives, for every id, the document as \<^verbatim>\<open>get\<close>
  returns it or the stored value; both are absent when there is no document.
  \<^verbatim>\<open>updateViewsForDoc\<close> maps the former and \<^verbatim>\<open>#rebuildView\<close> the latter.
\<close>

definition stored_document :: "Cushion \<Rightarrow> string \<Rightarrow> Document option" where
  "stored_document db docId =
     (case kv_get (c_kv db) (getDocumentKey (c_namespace db) docId) of
        None \<Rightarrow> None
      | Some e \<Rightarrow> (case entry_value e of DocValue d \<Rightarrow> Some d | _ \<Rightarrow> None))"

definition snapshot_of :: "Cushion \<Rightarrow> (string \<Rightarrow> Document option) \<Rightarrow> bool" where
  "snapshot_of db g = (\<forall>docId. g docId = Cushion_get docId db \<or> g docId = stored_document db docId)"

text \<open>
  The documents of a namespace are well formed: every entry under the prefix of the
  documents stands at the key of an id and holds a document whose \<^verbatim>\<open>_id\<close> is that id, as
  \<^verbatim>\<open>insert\<close> and \<^verbatim>\<open>replace\<close> write them.
\<close>

definition docs_ok :: "string \<Rightarrow> Kv \<Rightarrow> bool" where
  "docs_ok ns kv =
     (\<forall>k e. kv_get kv k = Some e \<and> strict_prefix (getDocPrefix ns) k \<longrightarrow>
        (\<exists>docId d. k = getDocumentKey ns docId \<and> entry_value e = DocValue d \<and>
                   d ''_id'' = Some (JString docId)))"

text \<open>
  A view is current for a map function when its back-references and rows are the
  expected ones for some snapshot of the documents. The views of a database are current
  when the documents are well formed, back-references name rows, the names of the
  registry are distinct and every view of the registry is current for its map function.
  A database just opened has an empty registry.
\<close>

definition view_current :: "Cushion \<Rightarrow> string \<Rightarrow> MapFunction \<Rightarrow> bool" where
  "view_current db viewName mapper =
     (\<exists>g. snapshot_of db g \<and> view_ok (c_namespace db) viewName mapper g (kvv (c_kv db)))"

definition views_current :: "Cushion \<Rightarrow> bool" where
  "views_current db =
     (docs_ok (c_namespace db) (c_kv db) \<and> refs_name_rows (c_kv db) \<and> distinct (map fst (c_views db)) \<and>
      (\<forall>x \<in> set (c_views db). view_current db (fst x) (vl_map (snd x))))"

text \<open>
  \<^verbatim>\<open>defineView\<close> goes on to \<^verbatim>\<open>#rebuildView\<close>: the design record, if there is one, has another
  signature and is not in the state \<^verbatim>\<open>building\<close>.
\<close>

definition rebuilds :: "(string \<Rightarrow> string) \<Rightarrow> string \<Rightarrow> MapFunction \<Rightarrow> Cushion \<Rightarrow> bool" where
  "rebuilds digest viewName mapper db =
     (let val = design_record (c_kv db) (getDesignKey (c_namespace db) viewName)
      in map_option vs_signature val \<noteq> Some (hashFunction digest mapper) \<and>
         map_option vs_state val \<noteq> Some Building)"

text \<open>
  A store that holds the test document and no view, a second document, and the test
  database opened on that store, with the view defined and the second document inserted.
\<close>

definition test_store :: Kv where
  "test_store = c_kv (snd (Cushion_insert ''6f1c'' alice (Cushion_open ''test'' kv_empty)))"

definition bob :: Document where
  "bob = [''_id'' \<mapsto> JString ''bob'', ''type'' \<mapsto> JString ''user'', ''name'' \<mapsto> JString ''Bob'']"

definition test_db_late :: Cushion where
  "test_db_late =
     foldl run_operation
       (define_views (\<lambda>text. text) [(''by-name'', by_name, None)] (Cushion_open ''test'' test_store))
       [Insert ''6f1c'' bob]"

section \<open>The query builder: shape precedence\<close>

lemma apply_call_slots:
  "(vq_key (apply_call q c) \<noteq> None) = (vq_key q \<noteq> None \<or> is_key_call c)"
  "(vq_keys (apply_call q c) \<noteq> None) = (vq_keys q \<noteq> None \<or> is_keys_call c)"
  "(vq_prefix (apply_call q c) \<noteq> None) = (vq_prefix q \<noteq> None \<or> is_prefix_call c)"
  "(vq_startKey (apply_call q c) \<noteq> None \<and> vq_endKey (apply_call q c) \<noteq> None) =
     ((vq_startKey q \<noteq> None \<and> vq_endKey q \<noteq> None) \<or> is_range_call c)"
  by (cases c; simp add: ViewQuery_key_def ViewQuery_keys_def ViewQuery_prefix_def
        ViewQuery_range_def ViewQuery_idRange_def ViewQuery_skip_def ViewQuery_limit_def
        ViewQuery_includeDocs_def ViewQuery_order_def ViewQuery_reduce_def ViewQuery_group_def
        split: sum.splits GroupLevel.splits)+

lemma foldl_slots:
  "(vq_key (foldl apply_call q cs) \<noteq> None) = (vq_key q \<noteq> None \<or> list_ex is_key_call cs)"
  "(vq_keys (foldl apply_call q cs) \<noteq> None) = (vq_keys q \<noteq> None \<or> list_ex is_keys_call cs)"
  "(vq_prefix (foldl apply_call q cs) \<noteq> None) = (vq_prefix q \<noteq> None \<or> list_ex is_prefix_call cs)"
  "(vq_startKey (foldl apply_call q cs) \<noteq> None \<and> vq_endKey (foldl apply_call q cs) \<noteq> None) =
     ((vq_startKey q \<noteq> None \<and> vq_endKey q \<noteq> None) \<or> list_ex is_range_call cs)"
proof (induction cs arbitrary: q)
  case Nil
  {
    case 1 show ?case by simp
  next
    case 2 show ?case by simp
  next
    case 3 show ?case by simp
  next
    case 4 show ?case by simp
  }
next
  case (Cons c cs)
  {
    case 1 show ?case using Cons.IH(1) [of "apply_call q c"] apply_call_slots(1) [of q c] by auto
  next
    case 2 show ?case using Cons.IH(2) [of "apply_call q c"] apply_call_slots(2) [of q c] by auto
  next
    case 3 show ?case using Cons.IH(3) [of "apply_call q c"] apply_call_slots(3) [of q c] by auto
  next
    case 4 show ?case using Cons.IH(4) [of "apply_call q c"] apply_call_slots(4) [of q c] by auto
  }
qed

lemma shape_type_slots:
  "shape_type (getParams_shape q) =
     (if vq_key q \<noteq> None then ''key''
      else if vq_keys q \<noteq> None then ''keys''
      else if vq_prefix q \<noteq> None then ''prefix''
      else if vq_startKey q \<noteq> None \<and> vq_endKey q \<noteq> None then ''range''
      else ''scan'')"
  by (auto simp: getParams_shape_def split: option.splits)

text \<open>
  Claim C2. For a builder made by \<^verbatim>\<open>ViewQuery.for\<close> and any chain of calls of its methods,
  in any order, the \<^verbatim>\<open>type\<close> of \<^verbatim>\<open>getParams()\<close> is \<^verbatim>\<open>key\<close> if \<^verbatim>\<open>key\<close> was called; else \<^verbatim>\<open>keys\<close> if
  \<^verbatim>\<open>keys\<close> was called; else \<^verbatim>\<open>prefix\<close> if \<^verbatim>\<open>prefix\<close> was called; else \<^verbatim>\<open>range\<close> if \<^verbatim>\<open>range\<close> was
  called; else \<^verbatim>\<open>scan\<close>. The chain may also hold calls of the other methods of the builder.
\<close>

theorem getParams_precedence:
  "shape_type (p_shape (ViewQuery_getParams (build name calls))) = precedence_type calls"
proof -
  let ?q = "build name calls"
  have k: "(vq_key ?q \<noteq> None) = list_ex is_key_call calls"
    unfolding build_def using foldl_slots(1) [of "ViewQuery_for name" calls]
    by (simp add: ViewQuery_for_def)
  have ks: "(vq_keys ?q \<noteq> None) = list_ex is_keys_call calls"
    unfolding build_def using foldl_slots(2) [of "ViewQuery_for name" calls]
    by (simp add: ViewQuery_for_def)
  have p: "(vq_prefix ?q \<noteq> None) = list_ex is_prefix_call calls"
    unfolding build_def using foldl_slots(3) [of "ViewQuery_for name" calls]
    by (simp add: ViewQuery_for_def)
  have r: "(vq_startKey ?q \<noteq> None \<and> vq_endKey ?q \<noteq> None) = list_ex is_range_call calls"
    unfolding build_def using foldl_slots(4) [of "ViewQuery_for name" calls]
    by (simp add: ViewQuery_for_def)
  show ?thesis
    unfolding ViewQuery_getParams_def precedence_type_def
    using k ks p r by (simp add: shape_type_slots)
qed

text \<open>The first test of the precedence suite: \<^verbatim>\<open>prefix\<close>, then \<^verbatim>\<open>range\<close>, then \<^verbatim>\<open>key\<close>.\<close>

lemma getParams_precedence_test:
  "p_shape (ViewQuery_getParams
      (build ''test-view'' [CallPrefix [KString ''pre''],
         CallRange [KString ''a''] [KString ''b''], CallKey ''c''])) = KeyShape ''c''"
  by (simp add: build_def ViewQuery_getParams_def getParams_shape_def ViewQuery_for_def
      ViewQuery_prefix_def ViewQuery_range_def ViewQuery_key_def)

section \<open>The query builder: numeric arguments\<close>

lemma trunc_of_int [simp]: "trunc_toward_zero (of_int k) = k"
  by (simp add: trunc_toward_zero_def flip: of_int_minus)

lemma trunc_numeral [simp]: "trunc_toward_zero (numeral k) = numeral k"
  using trunc_of_int [of "numeral k"] by simp

lemma trunc_nonneg: "0 \<le> x \<Longrightarrow> trunc_toward_zero x = \<lfloor>x\<rfloor>"
  by (simp add: trunc_toward_zero_def)

lemma ToInt32_of_sint: "ToInt32 (Finite (of_int (sint w))) = w"
  by (simp only: ToInt32.simps trunc_of_int) simp

lemma double_tilde_eq: "double_tilde x = Finite (of_int (sint (ToInt32 x)))"
  unfolding double_tilde_def bitwise_not_def ToInt32_of_sint by simp

text \<open>
  Below \<open>2 ^ 31\<close> the idiom \<^verbatim>\<open>~~\<close> truncates a non-negative number, as the builder means
  it to.
\<close>

lemma double_tilde_in_range:
  assumes "0 \<le> x" "x < 2147483648"
  shows "double_tilde (Finite x) = Finite (of_int \<lfloor>x\<rfloor>)"
proof -
  have "\<lfloor>x\<rfloor> < 2147483648" using assms(2) by linarith
  moreover have "0 \<le> \<lfloor>x\<rfloor>" using assms(1) by simp
  ultimately have "sint (word_of_int \<lfloor>x\<rfloor> :: 32 word) = \<lfloor>x\<rfloor>"
    by (simp add: sint_sbintrunc' signed_take_bit_int_eq_self)
  then show ?thesis using assms(1) unfolding double_tilde_eq by (simp add: trunc_nonneg)
qed

lemma skip_in_range:
  assumes "x < 2147483648"
  shows "vq_skip (ViewQuery_skip (Finite x) q) = Finite (of_int \<lfloor>max 0 x\<rfloor>)"
proof (cases "0 < x")
  case True
  then show ?thesis using assms double_tilde_in_range [of x]
    by (simp add: ViewQuery_skip_def max_def)
next
  case False
  then show ?thesis using double_tilde_in_range [of 0]
    by (simp add: ViewQuery_skip_def max_def)
qed

lemma limit_in_range:
  assumes "x < 2147483648"
  shows "vq_limit (ViewQuery_limit (Finite x) q) = Finite (of_int \<lfloor>max 0 x\<rfloor>)"
proof (cases "0 < x")
  case True
  then show ?thesis using assms double_tilde_in_range [of x]
    by (simp add: ViewQuery_limit_def max_def)
next
  case False
  then show ?thesis using double_tilde_in_range [of 0]
    by (simp add: ViewQuery_limit_def max_def)
qed

text \<open>
  Claim C6 says that \<^verbatim>\<open>skip(n)\<close> and \<^verbatim>\<open>limit(n)\<close> store \<^verbatim>\<open>max(0, n)\<close> truncated toward zero,
  for every number \<open>n\<close>. The code computes \<^verbatim>\<open>~~Math.max(0, n)\<close>, and \<^verbatim>\<open>~~\<close> converts to a
  signed 32-bit integer: \<^verbatim>\<open>skip(2147483648)\<close> stores \<open>-2147483648\<close>, a negative number, and
  \<^verbatim>\<open>limit(Infinity)\<close> stores 0, although the limit of a fresh builder is \<^verbatim>\<open>Infinity\<close>.
\<close>

theorem skip_limit_wrap_around:
  "vq_skip (ViewQuery_skip (Finite 2147483648) q) = Finite (- 2147483648) \<and>
   vq_limit (ViewQuery_limit (Finite 2147483648) q) = Finite (- 2147483648) \<and>
   vq_limit (ViewQuery_limit PosInfinity q) = Finite 0 \<and>
   vq_limit (ViewQuery_for name) = PosInfinity"
  by (simp add: ViewQuery_skip_def ViewQuery_limit_def ViewQuery_for_def double_tilde_eq)

lemma group_true_or_zero:
  "level = GBoolean True \<or> level = GNumber (Finite 0) \<Longrightarrow>
     ViewQuery_group level q = Inr (q\<lparr> vq_reduce := True, vq_groupLevel := Some (Finite 0) \<rparr>)"
  by (auto simp: ViewQuery_group_def)

lemma group_false:
  "ViewQuery_group (GBoolean False) q = Inr (q\<lparr> vq_groupLevel := None \<rparr>)"
  by (simp add: ViewQuery_group_def)

lemma group_false_keeps_reduce:
  "ViewQuery_group (GBoolean False) q = Inr q' \<Longrightarrow> vq_reduce q' = vq_reduce q \<and> vq_groupLevel q' = None"
  by (auto simp: ViewQuery_group_def)

lemma group_positive_in_range:
  assumes "0 < x" "x < 2147483648"
  shows "ViewQuery_group (GNumber (Finite x)) q =
           Inr (q\<lparr> vq_reduce := True, vq_groupLevel := Some (Finite (of_int \<lfloor>x\<rfloor>)) \<rparr>)"
  using assms double_tilde_in_range [of x] by (simp add: ViewQuery_group_def)

lemma group_pi:
  "ViewQuery_group (GNumber (Finite (884279719003555 / 281474976710656))) q
     = Inr (q\<lparr> vq_reduce := True, vq_groupLevel := Some (Finite 3) \<rparr>)"
  by (simp add: ViewQuery_group_def double_tilde_eq trunc_nonneg)

lemma group_invalid:
  "level = GNumber NaN \<or> level = GNumber NegInfinity \<or> (\<exists>x < 0. level = GNumber (Finite x)) \<Longrightarrow>
     ViewQuery_group level q = Inl InvalidGroupLevel"
  by (auto simp: ViewQuery_group_def)

text \<open>
  Claim C4 says that \<^verbatim>\<open>group(x)\<close> with a positive number \<open>x\<close> sets the group level to the
  floor of \<open>x\<close>. The code stores \<^verbatim>\<open>~~level\<close>: \<^verbatim>\<open>group(2147483648)\<close>, a positive integer, sets
  the group level \<open>-2147483648\<close>, and \<^verbatim>\<open>group(Infinity)\<close> sets 0. The other cases of the claim
  hold and are the lemmas above.
\<close>

theorem group_wrap_around:
  "ViewQuery_group (GNumber (Finite 2147483648)) q =
     Inr (q\<lparr> vq_reduce := True, vq_groupLevel := Some (Finite (- 2147483648)) \<rparr>) \<and>
   ViewQuery_group (GNumber PosInfinity) q =
     Inr (q\<lparr> vq_reduce := True, vq_groupLevel := Some (Finite 0) \<rparr>)"
  by (simp add: ViewQuery_group_def double_tilde_eq)


section \<open>The store: what a commit changes\<close>

lemmas key_defs = getDocumentKey_def getDocPrefix_def getDesignKey_def getViewKey_def
  getViewRefKey_def getViewRefPrefix_def

lemma lookup_iff_mem: "DAList.lookup es k = Some e \<longleftrightarrow> (k, e) \<in> set (DAList.impl_of es)"
  by (simp add: DAList.lookup.rep_eq)

lemma lookup_apply_mutation_other:
  "k \<noteq> mutation_key m \<Longrightarrow> DAList.lookup (apply_mutation v m es) k = DAList.lookup es k"
  by (cases m) (auto simp: DAList.lookup_update)

lemma lookup_fold_other:
  "k \<notin> mutation_key ` set ms \<Longrightarrow>
     DAList.lookup (fold (apply_mutation v) ms es) k = DAList.lookup es k"
  by (induction ms arbitrary: es) (simp_all add: lookup_apply_mutation_other)

lemma commit_get_other:
  "k \<notin> mutation_key ` set (ao_mutations ao) \<Longrightarrow>
     kv_get (snd (atomic_commit ao kv)) k = kv_get kv k"
  by (simp add: atomic_commit_def kv_get_def Let_def lookup_fold_other)

lemma lookup_fold_cases:
  "DAList.lookup (fold (apply_mutation v) ms es) k = Some e \<Longrightarrow>
     DAList.lookup es k = Some e \<or>
     (\<exists>x. KvSet k x \<in> set ms \<and> e = \<lparr> entry_value = x, entry_versionstamp = v \<rparr>)"
proof (induction ms arbitrary: es)
  case Nil
  then show ?case by simp
next
  case (Cons m ms)
  from Cons.IH [of "apply_mutation v m es"] Cons.prems
  have "DAList.lookup (apply_mutation v m es) k = Some e \<or>
     (\<exists>x. KvSet k x \<in> set ms \<and> e = \<lparr> entry_value = x, entry_versionstamp = v \<rparr>)"
    by simp
  then show ?case
  proof
    assume *: "DAList.lookup (apply_mutation v m es) k = Some e"
    show ?thesis
    proof (cases m)
      case (KvSet k' x)
      then show ?thesis using * by (cases "k' = k") (auto simp: DAList.lookup_update)
    next
      case (KvDelete k')
      then show ?thesis using * by (cases "k' = k") auto
    qed
  next
    assume "\<exists>x. KvSet k x \<in> set ms \<and> e = \<lparr> entry_value = x, entry_versionstamp = v \<rparr>"
    then show ?thesis by auto
  qed
qed

lemma commit_get_cases:
  assumes "kv_get (snd (atomic_commit ao kv)) k = Some e"
  shows "kv_get kv k = Some e \<or> (\<exists>x. KvSet k x \<in> set (ao_mutations ao) \<and> entry_value e = x)"
proof (cases "list_all (check_holds kv) (ao_checks ao)")
  case True
  then have "DAList.lookup (fold (apply_mutation (Suc (kv_clock kv))) (ao_mutations ao) (kv_entries kv)) k = Some e"
    using assms by (simp add: atomic_commit_def kv_get_def Let_def)
  from lookup_fold_cases [OF this] show ?thesis by (auto simp: kv_get_def)
next
  case False
  then show ?thesis using assms by (simp add: atomic_commit_def)
qed

lemma commit_unchecked:
  "atomic_commit \<lparr> ao_checks = [], ao_mutations = ms \<rparr> kv =
     (Some (Suc (kv_clock kv)),
      \<lparr> kv_entries = fold (apply_mutation (Suc (kv_clock kv))) ms (kv_entries kv),
        kv_clock = Suc (kv_clock kv) \<rparr>)"
  by (simp add: atomic_commit_def Let_def)

lemma commit_checked_set:
  "atomic_commit (atomic_set k x (atomic_check k c atomic)) kv =
     (if map_option entry_versionstamp (kv_get kv k) = c then
        (Some (Suc (kv_clock kv)),
         \<lparr> kv_entries = DAList.update k \<lparr> entry_value = x, entry_versionstamp = Suc (kv_clock kv) \<rparr> (kv_entries kv),
           kv_clock = Suc (kv_clock kv) \<rparr>)
      else (None, kv))"
  by (simp add: atomic_commit_def atomic_set_def atomic_check_def atomic_def check_holds_def Let_def)

lemma fold_atomic_delete:
  "fold atomic_delete ks ao = ao\<lparr> ao_mutations := ao_mutations ao @ map KvDelete ks \<rparr>"
  by (induction ks arbitrary: ao) (simp_all add: atomic_delete_def)

lemma set_rows_eq:
  "set_rows rows ao =
     ao\<lparr> ao_mutations := ao_mutations ao @ map (\<lambda>r. KvSet (fst r) (RowValue (snd r))) rows \<rparr>"
  unfolding set_rows_def
  by (induction rows arbitrary: ao) (simp_all add: atomic_set_def)

subsection \<open>Back-references name rows\<close>

lemma refs_name_rows_iff:
  "refs_name_rows kv \<longleftrightarrow> (\<forall>k e. kv_get kv k = Some e \<longrightarrow> names_rows (entry_value e))"
  by (auto simp: refs_name_rows_def kv_get_def lookup_iff_mem list_all_iff)

lemma commit_refs_name_rows:
  assumes "refs_name_rows kv" "list_all mutation_names_rows (ao_mutations ao)"
  shows "refs_name_rows (snd (atomic_commit ao kv))"
  unfolding refs_name_rows_iff
proof (intro allI impI)
  fix k e assume "kv_get (snd (atomic_commit ao kv)) k = Some e"
  from commit_get_cases [OF this]
  show "names_rows (entry_value e)"
  proof
    assume "kv_get kv k = Some e"
    then show ?thesis using assms(1) by (auto simp: refs_name_rows_iff)
  next
    assume "\<exists>x. KvSet k x \<in> set (ao_mutations ao) \<and> entry_value e = x"
    then obtain x where "KvSet k x \<in> set (ao_mutations ao)" "entry_value e = x" by blast
    then show ?thesis using assms(2) by (auto simp: list_all_iff)
  qed
qed

lemma refs_name_rows_set:
  assumes "refs_name_rows kv" "names_rows x"
  shows "refs_name_rows \<lparr> kv_entries = DAList.update k \<lparr> entry_value = x, entry_versionstamp = v \<rparr> (kv_entries kv), kv_clock = c \<rparr>"
  using assms unfolding refs_name_rows_iff
  by (auto simp: kv_get_def DAList.lookup_update split: if_splits)

lemma key_kind_view [simp]: "key_kind (getViewKey ns v @ rest) = ''view''"
  by (simp add: key_kind_def getViewKey_def)

lemma key_kind_viewref [simp]: "key_kind (getViewRefKey ns v d) = ''viewref''"
  by (simp add: key_kind_def getViewRefKey_def getViewRefPrefix_def)

lemma key_kind_doc [simp]: "key_kind (getDocumentKey ns d) = ''doc''"
  by (simp add: key_kind_def getDocumentKey_def getDocPrefix_def)

lemma key_kind_design [simp]: "key_kind (getDesignKey ns v) = ''design''"
  by (simp add: key_kind_def getDesignKey_def)

lemma emit_rows_keys:
  "(k, r) \<in> set (emit_rows mapper (getViewKey ns v) docId d) \<Longrightarrow> key_kind k = ''view''"
  by (auto simp: emit_rows_def emit_row_def)

lemma existing_keys_kind:
  assumes "refs_name_rows kv" "k \<in> set (existing_keys kv refKey)"
  shows "key_kind k = ''view''"
proof -
  from assms(2) obtain e ks where e: "kv_get kv refKey = Some e" "entry_value e = RefValue ks" "k \<in> set ks"
    by (cases "kv_get kv refKey"; cases "entry_value (the (kv_get kv refKey))")
       (auto simp: existing_keys_def)
  with assms(1) have "names_rows (RefValue ks)" by (metis refs_name_rows_iff)
  with e(3) show ?thesis by (simp add: names_rows_def list_all_iff)
qed

subsection \<open>What \<open>updateViewsForDoc\<close> touches\<close>

lemma updateViewForDoc_eq:
  "updateViewForDoc viewName mapper docId doc db =
     db\<lparr> c_kv := snd (atomic_commit
                \<lparr> ao_checks = [], ao_mutations = update_mutations (c_namespace db) viewName mapper docId doc (c_kv db) \<rparr>
                (c_kv db)),
          c_mapCalls := (case doc of None \<Rightarrow> c_mapCalls db | Some _ \<Rightarrow> Suc (c_mapCalls db)) \<rparr>"
  by (cases doc)
     (simp_all add: updateViewForDoc_def update_mutations_def Let_def fold_atomic_delete
        set_rows_eq atomic_def atomic_delete_def atomic_set_def)

lemma updateViewForDoc_kv:
  "c_kv (updateViewForDoc viewName mapper docId doc db) =
     snd (atomic_commit
       \<lparr> ao_checks = [], ao_mutations = update_mutations (c_namespace db) viewName mapper docId doc (c_kv db) \<rparr>
       (c_kv db))"
  by (simp add: updateViewForDoc_eq)

lemma updateViewForDoc_namespace [simp]:
  "c_namespace (updateViewForDoc viewName mapper docId doc db) = c_namespace db"
  by (simp add: updateViewForDoc_eq)

lemma updateViewForDoc_views [simp]:
  "c_views (updateViewForDoc viewName mapper docId doc db) = c_views db"
  by (simp add: updateViewForDoc_eq)

lemma update_mutations_kinds:
  assumes "refs_name_rows kv" "m \<in> set (update_mutations ns v mapper docId doc kv)"
  shows "key_kind (mutation_key m) = ''view'' \<or> key_kind (mutation_key m) = ''viewref''"
  using assms
  by (cases doc) (auto simp: update_mutations_def existing_keys_kind emit_rows_keys)

lemma update_mutations_names_rows:
  "list_all mutation_names_rows (update_mutations ns v mapper docId doc kv)"
  by (cases doc) (auto simp: update_mutations_def list_all_iff names_rows_def emit_rows_keys)

lemma updateViewForDoc_refs:
  "refs_name_rows (c_kv db) \<Longrightarrow> refs_name_rows (c_kv (updateViewForDoc v mapper docId doc db))"
  unfolding updateViewForDoc_kv
  by (rule commit_refs_name_rows) (simp_all add: update_mutations_names_rows)

lemma updateViewForDoc_get_other:
  assumes "refs_name_rows (c_kv db)" "key_kind k \<noteq> ''view''" "key_kind k \<noteq> ''viewref''"
  shows "kv_get (c_kv (updateViewForDoc v mapper docId doc db)) k = kv_get (c_kv db) k"
  unfolding updateViewForDoc_kv
proof (rule commit_get_other)
  show "k \<notin> mutation_key ` set (ao_mutations \<lparr>ao_checks = [], ao_mutations = update_mutations (c_namespace db) v mapper docId doc (c_kv db)\<rparr>)"
    using update_mutations_kinds [OF assms(1), of _ "c_namespace db" v mapper docId doc] assms(2,3)
    by auto
qed

lemma updateViews_loop_props:
  assumes "refs_name_rows (c_kv db)"
  shows "refs_name_rows (c_kv (updateViews_loop vs docId doc db))"
    and "c_namespace (updateViews_loop vs docId doc db) = c_namespace db"
    and "c_views (updateViews_loop vs docId doc db) = c_views db"
    and "key_kind k \<noteq> ''view'' \<Longrightarrow> key_kind k \<noteq> ''viewref'' \<Longrightarrow>
         kv_get (c_kv (updateViews_loop vs docId doc db)) k = kv_get (c_kv db) k"
  using assms
proof (induction vs arbitrary: db)
  case Nil
  {
    case 1 then show ?case by simp
  next
    case 2 then show ?case by simp
  next
    case 3 then show ?case by simp
  next
    case 4 then show ?case by simp
  }
next
  case (Cons a vs)
  {
    case 1 then show ?case using Cons.IH(1) updateViewForDoc_refs by simp
  next
    case 2 then show ?case using Cons.IH(2) updateViewForDoc_refs by simp
  next
    case 3 then show ?case using Cons.IH(3) updateViewForDoc_refs by simp
  next
    case 4 then show ?case using Cons.IH(4) updateViewForDoc_refs updateViewForDoc_get_other by simp
  }
qed

lemma updateViewsForDoc_props:
  assumes "refs_name_rows (c_kv db)"
  shows "refs_name_rows (c_kv (updateViewsForDoc docId doc db))"
    and "c_namespace (updateViewsForDoc docId doc db) = c_namespace db"
    and "c_views (updateViewsForDoc docId doc db) = c_views db"
    and "key_kind k \<noteq> ''view'' \<Longrightarrow> key_kind k \<noteq> ''viewref'' \<Longrightarrow>
         kv_get (c_kv (updateViewsForDoc docId doc db)) k = kv_get (c_kv db) k"
  unfolding updateViewsForDoc_def using updateViews_loop_props [OF assms] by simp_all

subsection \<open>The test database, evaluated\<close>

lemma kv_list_empty [simp]: "kv_list kv_empty sel = []"
  by (simp add: kv_list_def kv_empty_def sort_entries_def DAList.empty.rep_eq)

lemma test_db_eq:
  "test_db =
     \<lparr> c_kv = \<lparr> kv_entries = DAList.update (getDesignKey ''test'' ''by-name'')
                    \<lparr> entry_value = DesignValue \<lparr> vs_signature = fn_text by_name, vs_state = Ready \<rparr>,
                      entry_versionstamp = 1 \<rparr> DAList.empty,
                kv_clock = 1 \<rparr>,
       c_namespace = ''test'',
       c_views = [(''by-name'', \<lparr> vl_map = by_name, vl_reduce = None \<rparr>)],
       c_mapCalls = 0 \<rparr>"
  by (simp add: test_db_def Cushion_defineView_def Cushion_open_def design_record_def kv_get_def
      kv_empty_def [symmetric] rebuildView_def rebuild_delete_def delete_prefix_def commit_rest_def
      rebuild_map_def hashFunction_def kv_set_def atomic_commit_def atomic_set_def atomic_def Let_def)
   (simp add: kv_empty_def)

lemma test_db_refs: "refs_name_rows (c_kv test_db)"
  by (simp add: test_db_eq refs_name_rows_def DAList.update.rep_eq DAList.empty.rep_eq names_rows_def)

lemma test_db_no_docs: "kv_get (c_kv test_db) (getDocumentKey ''test'' d) = None"
  by (simp add: test_db_eq kv_get_def DAList.lookup_update key_defs)

lemma alice_emits:
  "fn_emits by_name (alice(''_rev'' \<mapsto> JStamp v)) = [(EmitPart (KString ''Alice''), JUndefined)]"
  by (simp add: by_name_def alice_def)

lemma alice_facts:
  "alice(''_id'' \<mapsto> JString ''alice'') = alice"
  "insert_id alice uuid = ''alice''"
  "alice ''_rev'' = None"
  by (auto simp: alice_def insert_id_def)

lemma test_db_alice_eq:
  "test_db_alice =
     \<lparr> c_kv = \<lparr> kv_entries =
                  DAList.update [KString ''test'', KString ''viewref'', KString ''by-name'', KString ''alice'']
                    \<lparr> entry_value = RefValue [[KString ''test'', KString ''view'', KString ''by-name'', KString ''Alice'', KString ''alice'']],
                      entry_versionstamp = 3 \<rparr>
                 (DAList.update [KString ''test'', KString ''view'', KString ''by-name'', KString ''Alice'', KString ''alice'']
                    \<lparr> entry_value = RowValue \<lparr> row_value = JNull, row_doc = alice(''_rev'' \<mapsto> JStamp 2) \<rparr>,
                      entry_versionstamp = 3 \<rparr>
                 (DAList.update [KString ''test'', KString ''doc'', KString ''alice'']
                    \<lparr> entry_value = DocValue alice, entry_versionstamp = 2 \<rparr>
                 (DAList.update [KString ''test'', KString ''design'', KString ''by-name'']
                    \<lparr> entry_value = DesignValue \<lparr> vs_signature = fn_text by_name, vs_state = Ready \<rparr>,
                      entry_versionstamp = 1 \<rparr> DAList.empty))),
                kv_clock = 3 \<rparr>,
       c_namespace = ''test'',
       c_views = [(''by-name'', \<lparr> vl_map = by_name, vl_reduce = None \<rparr>)],
       c_mapCalls = 1 \<rparr>"
  unfolding test_db_alice_def
  by (simp add: Cushion_insert_def alice_facts test_db_eq Let_def commit_checked_set kv_get_def
      DAList.lookup_update key_defs updateViewsForDoc_def updateViewForDoc_eq commit_unchecked
      update_mutations_def existing_keys_def
      emit_rows_def emit_row_def alice_emits nullish_to_null_def numeral_2_eq_2 numeral_3_eq_3)

lemma test_db_alice_refs: "refs_name_rows (c_kv test_db_alice)"
  by (simp add: test_db_alice_eq refs_name_rows_def DAList.update.rep_eq DAList.empty.rep_eq
      names_rows_def key_kind_def)

section \<open>Documents: insert, get, replace\<close>

lemma insert_success:
  assumes norev: "doc ''_rev'' = None"
    and fresh: "kv_get (c_kv db) (getDocumentKey (c_namespace db) (insert_id doc uuid)) = None"
    and refs: "refs_name_rows (c_kv db)"
  shows "fst (Cushion_insert uuid doc db) =
           Inr \<lparr> ir_ok = True, ir_id = insert_id doc uuid, ir_rev = Suc (kv_clock (c_kv db)) \<rparr>"
    and "kv_get (c_kv (snd (Cushion_insert uuid doc db))) (getDocumentKey (c_namespace db) (insert_id doc uuid)) =
           Some \<lparr> entry_value = DocValue (doc(''_id'' \<mapsto> JString (insert_id doc uuid))),
                  entry_versionstamp = Suc (kv_clock (c_kv db)) \<rparr>"
    and "c_namespace (snd (Cushion_insert uuid doc db)) = c_namespace db"
    and "\<And>k. key_kind k \<noteq> ''view'' \<Longrightarrow> key_kind k \<noteq> ''viewref'' \<Longrightarrow>
           k \<noteq> getDocumentKey (c_namespace db) (insert_id doc uuid) \<Longrightarrow>
           kv_get (c_kv (snd (Cushion_insert uuid doc db))) k = kv_get (c_kv db) k"
proof -
  let ?id = "insert_id doc uuid"
  let ?k = "getDocumentKey (c_namespace db) ?id"
  let ?v = "Suc (kv_clock (c_kv db))"
  let ?kv1 = "\<lparr> kv_entries = DAList.update ?k \<lparr> entry_value = DocValue (doc(''_id'' \<mapsto> JString ?id)), entry_versionstamp = ?v \<rparr> (kv_entries (c_kv db)),
           kv_clock = ?v \<rparr>"
  let ?db1 = "db\<lparr> c_kv := ?kv1 \<rparr>"
  let ?d = "(doc(''_id'' \<mapsto> JString ?id))(''_rev'' \<mapsto> JStamp ?v)"
  have ins: "Cushion_insert uuid doc db =
      (Inr \<lparr> ir_ok = True, ir_id = ?id, ir_rev = ?v \<rparr>, updateViewsForDoc ?id (Some ?d) ?db1)"
    using norev fresh by (simp add: Cushion_insert_def Let_def commit_checked_set)
  have refs1: "refs_name_rows (c_kv ?db1)"
    using refs_name_rows_set [OF refs, of "DocValue (doc(''_id'' \<mapsto> JString ?id))"]
    by (simp add: names_rows_def)
  show "fst (Cushion_insert uuid doc db) = Inr \<lparr> ir_ok = True, ir_id = ?id, ir_rev = ?v \<rparr>"
    by (simp add: ins)
  show "kv_get (c_kv (snd (Cushion_insert uuid doc db))) ?k =
           Some \<lparr> entry_value = DocValue (doc(''_id'' \<mapsto> JString ?id)), entry_versionstamp = ?v \<rparr>"
    using updateViewsForDoc_props(4) [OF refs1, of ?k ?id "Some ?d"]
    by (simp add: ins kv_get_def)
  show "c_namespace (snd (Cushion_insert uuid doc db)) = c_namespace db"
    using updateViewsForDoc_props(2) [OF refs1] by (simp add: ins)
  show "kv_get (c_kv (snd (Cushion_insert uuid doc db))) k = kv_get (c_kv db) k"
    if "key_kind k \<noteq> ''view''" "key_kind k \<noteq> ''viewref''" "k \<noteq> ?k" for k
    using updateViewsForDoc_props(4) [OF refs1 that(1,2), of ?id "Some ?d"] that(3)
    by (simp add: ins kv_get_def DAList.lookup_update)
qed

text \<open>
  Claim C7. Let \<open>doc\<close> hold no \<^verbatim>\<open>_rev\<close> and let its id (its \<^verbatim>\<open>_id\<close>, or the generated one)
  have no document in the store. Then \<^verbatim>\<open>insert(doc)\<close> returns \<^verbatim>\<open>{ok: true, id, rev}\<close>, a
  following \<^verbatim>\<open>get(id)\<close> returns \<open>doc\<close> with \<^verbatim>\<open>_id\<close> equal to the id and \<^verbatim>\<open>_rev\<close> equal to the
  returned revision, and the value stored under the document key holds no \<^verbatim>\<open>_rev\<close> and
  has the id of its key as \<^verbatim>\<open>_id\<close>. The store is one whose back-references name rows.
\<close>

theorem insert_then_get:
  assumes "doc ''_rev'' = None"
    and "kv_get (c_kv db) (getDocumentKey (c_namespace db) (insert_id doc uuid)) = None"
    and "refs_name_rows (c_kv db)"
  shows "fst (Cushion_insert uuid doc db) =
           Inr \<lparr> ir_ok = True, ir_id = insert_id doc uuid, ir_rev = Suc (kv_clock (c_kv db)) \<rparr> \<and>
         Cushion_get (insert_id doc uuid) (snd (Cushion_insert uuid doc db)) =
           Some (doc(''_id'' \<mapsto> JString (insert_id doc uuid),
                     ''_rev'' \<mapsto> JStamp (Suc (kv_clock (c_kv db))))) \<and>
         (\<exists>stored. map_option entry_value
              (kv_get (c_kv (snd (Cushion_insert uuid doc db)))
                 (getDocumentKey (c_namespace db) (insert_id doc uuid))) = Some (DocValue stored) \<and>
            stored ''_rev'' = None \<and> stored ''_id'' = Some (JString (insert_id doc uuid)))"
  using insert_success(1,2,3) [where doc = doc and db = db and uuid = uuid] assms
  by (simp add: Cushion_get_def)

theorem insert_then_get_witness:
  "fst (Cushion_insert ''6f1c'' alice test_db) = Inr \<lparr> ir_ok = True, ir_id = ''alice'', ir_rev = 2 \<rparr> \<and>
   Cushion_get ''alice'' (snd (Cushion_insert ''6f1c'' alice test_db)) =
     Some (alice(''_rev'' \<mapsto> JStamp 2))"
proof -
  have ns: "c_namespace test_db = ''test''" by (simp add: test_db_eq)
  have clock: "kv_clock (c_kv test_db) = 1" by (simp add: test_db_eq)
  show ?thesis
    using insert_then_get [where doc = alice and db = test_db and uuid = "''6f1c''"]
      test_db_refs test_db_no_docs
    by (simp add: alice_facts ns clock numeral_2_eq_2)
qed

text \<open>
  Claim C9. If \<^verbatim>\<open>insert\<close> is called with a document whose \<^verbatim>\<open>_id\<close> is present and falsy (the
  empty string, \<^verbatim>\<open>undefined\<close>, or another falsy value), the document is stored under the
  generated identifier \<open>uuid\<close>, with \<^verbatim>\<open>_id\<close> set to it, and nothing is written under the
  empty id. The generated identifier is not empty and has no document yet.
\<close>

theorem insert_falsy_id:
  assumes "doc ''_id'' = Some v" and "\<not> truthy v"
    and "doc ''_rev'' = None"
    and "uuid \<noteq> []"
    and "kv_get (c_kv db) (getDocumentKey (c_namespace db) uuid) = None"
    and "refs_name_rows (c_kv db)"
  shows "fst (Cushion_insert uuid doc db) =
           Inr \<lparr> ir_ok = True, ir_id = uuid, ir_rev = Suc (kv_clock (c_kv db)) \<rparr> \<and>
         kv_get (c_kv (snd (Cushion_insert uuid doc db))) (getDocumentKey (c_namespace db) uuid) =
           Some \<lparr> entry_value = DocValue (doc(''_id'' \<mapsto> JString uuid)),
                  entry_versionstamp = Suc (kv_clock (c_kv db)) \<rparr> \<and>
         kv_get (c_kv (snd (Cushion_insert uuid doc db))) (getDocumentKey (c_namespace db) []) =
           kv_get (c_kv db) (getDocumentKey (c_namespace db) [])"
proof -
  have id: "insert_id doc uuid = uuid" using assms(1,2) by (simp add: insert_id_def)
  have ne: "getDocumentKey (c_namespace db) [] \<noteq> getDocumentKey (c_namespace db) uuid"
    using assms(4) by (auto simp: getDocumentKey_def)
  show ?thesis
    using insert_success(1,2) [where doc = doc and db = db and uuid = uuid]
      insert_success(4) [where doc = doc and db = db and uuid = uuid
        and k = "getDocumentKey (c_namespace db) []"]
      assms(3,5,6) ne
    by (simp add: id)
qed

theorem insert_falsy_id_witness:
  "fst (Cushion_insert ''6f1c'' [''_id'' \<mapsto> JString [], ''name'' \<mapsto> JString ''Bob''] test_db) =
     Inr \<lparr> ir_ok = True, ir_id = ''6f1c'', ir_rev = 2 \<rparr> \<and>
   kv_get (c_kv (snd (Cushion_insert ''6f1c'' [''_id'' \<mapsto> JString [], ''name'' \<mapsto> JString ''Bob''] test_db)))
       (getDocumentKey ''test'' ''6f1c'') =
     Some \<lparr> entry_value = DocValue [''_id'' \<mapsto> JString ''6f1c'', ''name'' \<mapsto> JString ''Bob''],
            entry_versionstamp = 2 \<rparr> \<and>
   kv_get (c_kv (snd (Cushion_insert ''6f1c'' [''_id'' \<mapsto> JString [], ''name'' \<mapsto> JString ''Bob''] test_db)))
       (getDocumentKey ''test'' []) = None"
proof -
  let ?doc = "[''_id'' \<mapsto> JString [], ''name'' \<mapsto> JString ''Bob'']"
  have ns: "c_namespace test_db = ''test''" by (simp add: test_db_eq)
  have clock: "kv_clock (c_kv test_db) = 1" by (simp add: test_db_eq)
  have upd: "?doc(''_id'' \<mapsto> JString ''6f1c'') = [''_id'' \<mapsto> JString ''6f1c'', ''name'' \<mapsto> JString ''Bob'']"
    by auto
  show ?thesis
    using insert_falsy_id [where doc = ?doc and db = test_db and uuid = "''6f1c''" and v = "JString []"]
      test_db_refs test_db_no_docs
    by (simp add: ns clock numeral_2_eq_2 upd)
qed

text \<open>
  Claim C3. If \<^verbatim>\<open>replace(id, rev, doc)\<close> is called with a \<open>rev\<close> that is not the versionstamp
  of the document key (also when the key has no entry), the call fails with
  \<open>RevisionConflict\<close> and leaves the database as it was: the document is not modified, no
  view update is committed and no map function runs. With the current \<open>rev\<close> the call
  succeeds, and the value stored under the document key is \<open>doc\<close> without \<^verbatim>\<open>_rev\<close> and with
  \<^verbatim>\<open>_id\<close> set to \<open>id\<close>. The store is one whose back-references name rows.
\<close>

theorem replace_revision:
  assumes "refs_name_rows (c_kv db)"
  shows "(map_option entry_versionstamp (kv_get (c_kv db) (getDocumentKey (c_namespace db) docId)) \<noteq> Some rev' \<longrightarrow>
            Cushion_replace docId rev' doc db = (Inl RevisionConflict, db)) \<and>
         (map_option entry_versionstamp (kv_get (c_kv db) (getDocumentKey (c_namespace db) docId)) = Some rev' \<longrightarrow>
            fst (Cushion_replace docId rev' doc db) =
              Inr \<lparr> ir_ok = True, ir_id = docId, ir_rev = Suc (kv_clock (c_kv db)) \<rparr> \<and>
            kv_get (c_kv (snd (Cushion_replace docId rev' doc db))) (getDocumentKey (c_namespace db) docId) =
              Some \<lparr> entry_value = DocValue ((doc(''_rev'' := None))(''_id'' \<mapsto> JString docId)),
                     entry_versionstamp = Suc (kv_clock (c_kv db)) \<rparr>)"
proof (intro conjI impI)
  assume "map_option entry_versionstamp (kv_get (c_kv db) (getDocumentKey (c_namespace db) docId)) \<noteq> Some rev'"
  then show "Cushion_replace docId rev' doc db = (Inl RevisionConflict, db)"
    by (simp add: Cushion_replace_def Let_def commit_checked_set)
next
  let ?k = "getDocumentKey (c_namespace db) docId"
  let ?v = "Suc (kv_clock (c_kv db))"
  let ?u = "(doc(''_rev'' := None))(''_id'' \<mapsto> JString docId)"
  let ?kv1 = "\<lparr> kv_entries = DAList.update ?k \<lparr> entry_value = DocValue ?u, entry_versionstamp = ?v \<rparr> (kv_entries (c_kv db)),
           kv_clock = ?v \<rparr>"
  let ?db1 = "db\<lparr> c_kv := ?kv1 \<rparr>"
  assume cur: "map_option entry_versionstamp (kv_get (c_kv db) ?k) = Some rev'"
  then have rep: "Cushion_replace docId rev' doc db =
      (Inr \<lparr> ir_ok = True, ir_id = docId, ir_rev = ?v \<rparr>,
       updateViewsForDoc docId (Some (?u(''_rev'' \<mapsto> JStamp ?v))) ?db1)"
    by (simp add: Cushion_replace_def Let_def commit_checked_set)
  have refs1: "refs_name_rows (c_kv ?db1)"
    using refs_name_rows_set [OF assms, of "DocValue ?u"] by (simp add: names_rows_def)
  show "fst (Cushion_replace docId rev' doc db) = Inr \<lparr> ir_ok = True, ir_id = docId, ir_rev = ?v \<rparr>"
    by (simp add: rep)
  show "kv_get (c_kv (snd (Cushion_replace docId rev' doc db))) ?k =
          Some \<lparr> entry_value = DocValue ?u, entry_versionstamp = ?v \<rparr>"
    using updateViewsForDoc_props(4) [OF refs1, of ?k docId "Some (?u(''_rev'' \<mapsto> JStamp ?v))"]
    by (simp add: rep kv_get_def)
qed

text \<open>
  The test \<^verbatim>\<open>rejects stale rev\<close>, and a replace of a document that does not exist: both
  fail and change nothing. A replace with the current revision 2 of the test document,
  whose payload carries a stale \<^verbatim>\<open>_rev\<close> and another \<^verbatim>\<open>_id\<close>: both are overwritten.
\<close>

theorem replace_revision_witness:
  "Cushion_replace ''alice'' 1 [''name'' \<mapsto> JString ''Alice v3''] test_db_alice =
     (Inl RevisionConflict, test_db_alice) \<and>
   Cushion_replace ''bob'' 2 [''name'' \<mapsto> JString ''Bob''] test_db_alice =
     (Inl RevisionConflict, test_db_alice) \<and>
   fst (Cushion_replace ''alice'' 2
          [''_id'' \<mapsto> JString ''eve'', ''_rev'' \<mapsto> JStamp 1, ''name'' \<mapsto> JString ''Alicia''] test_db_alice) =
     Inr \<lparr> ir_ok = True, ir_id = ''alice'', ir_rev = 4 \<rparr> \<and>
   kv_get (c_kv (snd (Cushion_replace ''alice'' 2
          [''_id'' \<mapsto> JString ''eve'', ''_rev'' \<mapsto> JStamp 1, ''name'' \<mapsto> JString ''Alicia''] test_db_alice)))
       (getDocumentKey ''test'' ''alice'') =
     Some \<lparr> entry_value = DocValue [''_id'' \<mapsto> JString ''alice'', ''name'' \<mapsto> JString ''Alicia''],
            entry_versionstamp = 4 \<rparr>"
proof -
  let ?doc = "[''_id'' \<mapsto> JString ''eve'', ''_rev'' \<mapsto> JStamp 1, ''name'' \<mapsto> JString ''Alicia'']"
  have ns: "c_namespace test_db_alice = ''test''" by (simp add: test_db_alice_eq)
  have clock: "kv_clock (c_kv test_db_alice) = 3" by (simp add: test_db_alice_eq)
  have cur: "map_option entry_versionstamp (kv_get (c_kv test_db_alice) (getDocumentKey ''test'' ''alice'')) = Some 2"
    by (simp add: test_db_alice_eq kv_get_def DAList.lookup_update key_defs)
  have none: "kv_get (c_kv test_db_alice) (getDocumentKey ''test'' ''bob'') = None"
    by (simp add: test_db_alice_eq kv_get_def DAList.lookup_update key_defs)
  have upd: "(?doc(''_rev'' := None))(''_id'' \<mapsto> JString ''alice'') =
      [''_id'' \<mapsto> JString ''alice'', ''name'' \<mapsto> JString ''Alicia'']"
    by auto
  have four: "Suc 3 = 4" by simp
  have swap: "[''name'' \<mapsto> JString ''Alicia'', ''_id'' \<mapsto> JString ''alice''] =
      [''_id'' \<mapsto> JString ''alice'', ''name'' \<mapsto> JString ''Alicia'']"
    by (rule ext) simp
  show ?thesis
    using replace_revision [OF test_db_alice_refs, of "''alice''" 1 "[''name'' \<mapsto> JString ''Alice v3'']"]
      replace_revision [OF test_db_alice_refs, of "''bob''" 2 "[''name'' \<mapsto> JString ''Bob'']"]
      replace_revision [OF test_db_alice_refs, of "''alice''" 2 ?doc]
    by (simp add: ns clock cur none upd four swap)
qed


section \<open>Rebuilding a view\<close>

subsection \<open>Listings\<close>

lemma set_insert_entry [simp]: "set (insert_entry x xs) = insert x (set xs)"
  by (induction xs) auto

lemma set_sort_entries [simp]: "set (sort_entries xs) = set xs"
  unfolding sort_entries_def by (induction xs) auto

lemma kv_list_mem:
  "(k, e) \<in> set (kv_list kv sel) \<longleftrightarrow> kv_get kv k = Some e \<and> selects sel k"
  by (auto simp: kv_list_def kv_get_def lookup_iff_mem)

lemma strict_prefix_view_kind:
  "strict_prefix (getViewKey ns v) k \<Longrightarrow> key_kind k = ''view''"
  by (auto simp: strict_prefix_def prefix_def)

lemma strict_prefix_viewref_kind:
  "strict_prefix (getViewRefPrefix ns v) k \<Longrightarrow> key_kind k = ''viewref''"
  by (auto simp: strict_prefix_def prefix_def key_kind_def getViewRefPrefix_def)

lemma strict_prefix_doc_kind:
  "strict_prefix (getDocPrefix ns) k \<Longrightarrow> key_kind k = ''doc''"
  by (auto simp: strict_prefix_def prefix_def key_kind_def getDocPrefix_def)

text \<open>The loops of the rebuild leave every key alone that is neither listed nor pending.\<close>

lemma delete_entries_other:
  assumes "k \<notin> set ks" "k \<notin> mutation_key ` set (ao_mutations ao)"
  shows "kv_get (fst (delete_entries ks (kv, ao, n))) k = kv_get kv k \<and>
         k \<notin> mutation_key ` set (ao_mutations (fst (snd (delete_entries ks (kv, ao, n)))))"
  using assms
proof (induction ks arbitrary: kv ao n)
  case Nil
  then show ?case by simp
next
  case (Cons a ks)
  have pend: "k \<notin> mutation_key ` set (ao_mutations (atomic_delete a ao))"
    using Cons.prems by (auto simp: atomic_delete_def)
  show ?case
  proof (cases "n + 1 \<ge> BATCH_SIZE")
    case True
    have "kv_get (snd (atomic_commit (atomic_delete a ao) kv)) k = kv_get kv k"
      using pend by (rule commit_get_other)
    then show ?thesis
      using True Cons.IH [where kv = "snd (atomic_commit (atomic_delete a ao) kv)" and ao = atomic and n = 0] Cons.prems
      by (simp add: atomic_def)
  next
    case False
    then show ?thesis
      using Cons.IH [where ao = "atomic_delete a ao" and kv = kv and n = "n + 1"] Cons.prems pend by simp
  qed
qed

lemma commit_rest_other:
  assumes "k \<notin> mutation_key ` set (ao_mutations (fst (snd st)))"
  shows "kv_get (commit_rest st) k = kv_get (fst st) k"
  using assms by (cases st) (auto simp: commit_rest_def commit_get_other)

lemma delete_prefix_other:
  assumes "\<not> strict_prefix p k" "k \<notin> mutation_key ` set (ao_mutations (fst (snd st)))"
  shows "kv_get (fst (delete_prefix p st)) k = kv_get (fst st) k \<and>
         k \<notin> mutation_key ` set (ao_mutations (fst (snd (delete_prefix p st))))"
proof -
  obtain kv ao n where st: "st = (kv, ao, n)" by (cases st) auto
  have "k \<notin> set (map fst (kv_list kv (PrefixSelector p)))"
    using assms(1) by (auto simp: kv_list_mem)
  then show ?thesis
    unfolding delete_prefix_def st using delete_entries_other [where k = k and ao = ao and kv = kv and n = n] assms(2) st
    by simp
qed

lemma rebuild_delete_other:
  assumes "key_kind k \<noteq> ''view''" "key_kind k \<noteq> ''viewref''"
  shows "kv_get (rebuild_delete ns v kv) k = kv_get kv k"
proof -
  let ?st1 = "delete_prefix (getViewKey ns v) (kv, atomic, 0)"
  let ?st2 = "delete_prefix (getViewRefPrefix ns v) ?st1"
  have 1: "kv_get (fst ?st1) k = kv_get kv k \<and> k \<notin> mutation_key ` set (ao_mutations (fst (snd ?st1)))"
    using delete_prefix_other [of "getViewKey ns v" k "(kv, atomic, 0)"] assms(1) strict_prefix_view_kind
    by (auto simp: atomic_def)
  have 2: "kv_get (fst ?st2) k = kv_get (fst ?st1) k \<and> k \<notin> mutation_key ` set (ao_mutations (fst (snd ?st2)))"
    using delete_prefix_other [of "getViewRefPrefix ns v" k ?st1] assms(2) strict_prefix_viewref_kind 1
    by auto
  show ?thesis
    unfolding rebuild_delete_def using commit_rest_other [of k ?st2] 1 2 by simp
qed

lemma map_documents_other:
  assumes "key_kind k \<noteq> ''view''" "key_kind k \<noteq> ''viewref''"
      "k \<notin> mutation_key ` set (ao_mutations ao)"
  shows "kv_get (fst (fst (map_documents ns v mapper ds ((kv, ao, n), c)))) k = kv_get kv k \<and>
         k \<notin> mutation_key ` set (ao_mutations (fst (snd (fst (map_documents ns v mapper ds ((kv, ao, n), c))))))"
  using assms(3)
proof (induction ds arbitrary: kv ao n c)
  case Nil
  then show ?case by simp
next
  case (Cons d ds)
  show ?case
  proof (cases d)
    case (DocValue doc)
    let ?rows = "emit_rows mapper (getViewKey ns v) (document_id doc) doc"
    let ?b = "atomic_set (getViewRefKey ns v (document_id doc)) (RefValue (map fst ?rows)) (set_rows ?rows ao)"
    have pend: "k \<notin> mutation_key ` set (ao_mutations ?b)"
      using Cons.prems assms(1,2) by (auto simp: atomic_set_def set_rows_eq emit_rows_keys)
    show ?thesis
    proof (cases "n + length ?rows + 1 \<ge> BATCH_SIZE")
      case True
      have "kv_get (snd (atomic_commit ?b kv)) k = kv_get kv k"
        using pend by (rule commit_get_other)
      then show ?thesis
        using True DocValue Cons.IH [where ao = atomic and kv = "snd (atomic_commit ?b kv)" and n = 0 and c = "Suc c"]
        by (simp add: Let_def atomic_def)
    next
      case False
      then show ?thesis
        using DocValue Cons.IH [where ao = ?b and kv = kv and n = "n + length ?rows + 1" and c = "Suc c"] pend
        by (simp add: Let_def)
    qed
  next
    case (RowValue x)
    then show ?thesis using Cons by simp
  next
    case (RefValue x)
    then show ?thesis using Cons by simp
  next
    case (DesignValue x)
    then show ?thesis using Cons by simp
  qed
qed

lemma rebuild_map_other:
  assumes "key_kind k \<noteq> ''view''" "key_kind k \<noteq> ''viewref''"
  shows "kv_get (fst (rebuild_map ns v mapper (kv, c))) k = kv_get kv k"
proof -
  let ?docs = "map (\<lambda>x. entry_value (snd x)) (kv_list kv (PrefixSelector (getDocPrefix ns)))"
  let ?st = "map_documents ns v mapper ?docs ((kv, atomic, 0), c)"
  have "kv_get (fst (fst ?st)) k = kv_get kv k \<and>
        k \<notin> mutation_key ` set (ao_mutations (fst (snd (fst ?st))))"
    using map_documents_other [OF assms, where ao = atomic] by (simp add: atomic_def)
  then show ?thesis
    unfolding rebuild_map_def using commit_rest_other [of k "fst ?st"] by (simp add: Let_def)
qed


text \<open>
  Claim C5 says that from the start of a rebuild of a view until the design record
  \<^verbatim>\<open>{signature, state: "ready"}\<close> is written, the persisted design record of the view has
  the state \<^verbatim>\<open>building\<close>. The code never writes that state: after the first part of
  \<^verbatim>\<open>rebuildView\<close> (the deletions) and after the second (the map over the documents) the
  design record of every view is what it was when the rebuild started, absent for a view
  that is defined for the first time. The test \<^verbatim>\<open>value?.state === "building"\<close> of
  \<^verbatim>\<open>defineView\<close> and the type \<^verbatim>\<open>ViewState\<close> expect the state to be written.
\<close>

theorem rebuild_keeps_design_record:
  "design_record (rebuild_delete ns v kv) (getDesignKey ns v') = design_record kv (getDesignKey ns v') \<and>
   design_record (fst (rebuild_map ns v mapper (rebuild_delete ns v kv, c))) (getDesignKey ns v') =
     design_record kv (getDesignKey ns v')"
  by (simp add: design_record_def rebuild_delete_other rebuild_map_other)

section \<open>Defining a view again\<close>

lemma kv_set_get_same:
  "kv_get (kv_set k x kv) k = Some \<lparr> entry_value = x, entry_versionstamp = Suc (kv_clock kv) \<rparr>"
  by (simp add: kv_set_def atomic_set_def atomic_def commit_unchecked kv_get_def)

lemma kv_set_get_other:
  "k' \<noteq> k \<Longrightarrow> kv_get (kv_set k x kv) k' = kv_get kv k'"
  by (simp add: kv_set_def atomic_set_def atomic_def commit_unchecked kv_get_def DAList.lookup_update)

lemma rebuildView_fields:
  "c_namespace (rebuildView v mapper sig db) = c_namespace db"
  "c_views (rebuildView v mapper sig db) = c_views db"
  "design_record (c_kv (rebuildView v mapper sig db)) (getDesignKey (c_namespace db) v) =
     Some \<lparr> vs_signature = sig, vs_state = Ready \<rparr>"
  by (simp_all add: rebuildView_def Let_def design_record_def kv_set_get_same)

lemma defineView_same_signature:
  assumes "map_option vs_signature (design_record (c_kv db) (getDesignKey (c_namespace db) v)) =
             Some (hashFunction sha256 f)"
  shows "Cushion_defineView sha256 v f r db =
           db\<lparr> c_views := AList.update v \<lparr> vl_map = f, vl_reduce = r \<rparr> (c_views db) \<rparr>"
  using assms by (simp add: Cushion_defineView_def Let_def)

lemma defineView_while_building:
  assumes "map_option vs_state (design_record (c_kv db) (getDesignKey (c_namespace db) v)) = Some Building"
  shows "Cushion_defineView sha256 v f r db =
           db\<lparr> c_views := AList.update v \<lparr> vl_map = f, vl_reduce = r \<rparr> (c_views db) \<rparr>"
  using assms by (simp add: Cushion_defineView_def Let_def)

lemma defineView_namespace [simp]:
  "c_namespace (Cushion_defineView sha256 v f r db) = c_namespace db"
  by (simp add: Cushion_defineView_def Let_def rebuildView_fields)

lemma defineView_then_record:
  "map_option vs_signature (design_record (c_kv (Cushion_defineView sha256 v f r db)) (getDesignKey (c_namespace db) v)) =
      Some (hashFunction sha256 f) \<or>
   map_option vs_state (design_record (c_kv (Cushion_defineView sha256 v f r db)) (getDesignKey (c_namespace db) v)) =
      Some Building"
proof -
  let ?db' = "db\<lparr> c_views := AList.update v \<lparr> vl_map = f, vl_reduce = r \<rparr> (c_views db) \<rparr>"
  let ?val = "design_record (c_kv db) (getDesignKey (c_namespace db) v)"
  consider (same) "map_option vs_signature ?val = Some (hashFunction sha256 f)"
    | (building) "map_option vs_signature ?val \<noteq> Some (hashFunction sha256 f)"
        "map_option vs_state ?val = Some Building"
    | (rebuild) "map_option vs_signature ?val \<noteq> Some (hashFunction sha256 f)"
        "map_option vs_state ?val \<noteq> Some Building"
    by blast
  then show ?thesis
  proof cases
    case same
    then show ?thesis by (simp add: Cushion_defineView_def Let_def)
  next
    case building
    then show ?thesis by (simp add: Cushion_defineView_def Let_def)
  next
    case rebuild
    have kv: "c_kv ?db' = c_kv db" by simp
    from rebuild have a: "(map_option vs_signature ?val = Some (hashFunction sha256 f)) = False"
      and b: "(map_option vs_state ?val = Some Building) = False" by blast+
    have "Cushion_defineView sha256 v f r db = rebuildView v f (hashFunction sha256 f) ?db'"
      by (simp only: Cushion_defineView_def Let_def kv a b if_False)
    then show ?thesis using rebuildView_fields(3) [of v f "hashFunction sha256 f" ?db'] by simp
  qed
qed


text \<open>
  Claim C8. When the persisted design record of the view carries the signature of \<open>f\<close>,
  \<^verbatim>\<open>defineView(name, f, r)\<close> changes the registry entry and nothing else: the store is the
  same (no row, back-reference or design record is written) and the counter of map calls
  is the same (the map function does not run). This is the case of a second call with
  the same \<open>f\<close>: after any call \<^verbatim>\<open>defineView(name, f, r)\<close>, a call \<^verbatim>\<open>defineView(name, f, r')\<close>
  changes the registry entry only.
\<close>

theorem defineView_twice:
  "(map_option vs_signature (design_record (c_kv db) (getDesignKey (c_namespace db) v)) =
        Some (hashFunction sha256 f) \<longrightarrow>
      Cushion_defineView sha256 v f r db =
        db\<lparr> c_views := AList.update v \<lparr> vl_map = f, vl_reduce = r \<rparr> (c_views db) \<rparr>) \<and>
   Cushion_defineView sha256 v f r' (Cushion_defineView sha256 v f r db) =
     (Cushion_defineView sha256 v f r db)
       \<lparr> c_views := AList.update v \<lparr> vl_map = f, vl_reduce = r' \<rparr>
                      (c_views (Cushion_defineView sha256 v f r db)) \<rparr>"
proof (intro conjI impI)
  assume "map_option vs_signature (design_record (c_kv db) (getDesignKey (c_namespace db) v)) =
        Some (hashFunction sha256 f)"
  then show "Cushion_defineView sha256 v f r db =
        db\<lparr> c_views := AList.update v \<lparr> vl_map = f, vl_reduce = r \<rparr> (c_views db) \<rparr>"
    by (rule defineView_same_signature)
next
  let ?db1 = "Cushion_defineView sha256 v f r db"
  from defineView_then_record [of sha256 v f r db]
  show "Cushion_defineView sha256 v f r' ?db1 =
     ?db1 \<lparr> c_views := AList.update v \<lparr> vl_map = f, vl_reduce = r' \<rparr> (c_views ?db1) \<rparr>"
  proof
    assume "map_option vs_signature (design_record (c_kv ?db1) (getDesignKey (c_namespace db) v)) =
      Some (hashFunction sha256 f)"
    then show ?thesis using defineView_same_signature [of ?db1 v sha256 f r'] by simp
  next
    assume "map_option vs_state (design_record (c_kv ?db1) (getDesignKey (c_namespace db) v)) = Some Building"
    then show ?thesis using defineView_while_building [of ?db1 v sha256 f r'] by simp
  qed
qed

theorem defineView_twice_witness:
  "Cushion_defineView (\<lambda>text. text) ''by-name'' by_name None test_db = test_db"
proof -
  have "map_option vs_signature (design_record (c_kv test_db) (getDesignKey (c_namespace test_db) ''by-name'')) =
        Some (hashFunction (\<lambda>text. text) by_name)"
    by (simp add: test_db_eq design_record_def kv_get_def hashFunction_def)
  then show ?thesis
    using defineView_twice [of test_db "''by-name''" "\<lambda>text. text" by_name None]
    by (simp add: test_db_eq)
qed



section \<open>Views under insert, replace and remove\<close>

lemma kvv_apply_mutation:
  "map_option entry_value (DAList.lookup (apply_mutation v mu es) k) =
     mutation_map mu (\<lambda>k. map_option entry_value (DAList.lookup es k)) k"
  by (cases mu) (simp_all add: DAList.lookup_update)

lemma kvv_fold:
  "(\<lambda>k. map_option entry_value (DAList.lookup (fold (apply_mutation v) ms es) k)) =
     fold mutation_map ms (\<lambda>k. map_option entry_value (DAList.lookup es k))"
proof (induction ms arbitrary: es)
  case Nil
  then show ?case by simp
next
  case (Cons mu ms)
  have "(\<lambda>k. map_option entry_value (DAList.lookup (apply_mutation v mu es) k)) =
        mutation_map mu (\<lambda>k. map_option entry_value (DAList.lookup es k))"
    by (rule ext) (rule kvv_apply_mutation)
  then show ?case using Cons.IH [of "apply_mutation v mu es"] by simp
qed

lemma kvv_commit_unchecked:
  "kvv (snd (atomic_commit \<lparr> ao_checks = [], ao_mutations = ms \<rparr> kv)) = fold mutation_map ms (kvv kv)"
proof -
  have "kvv (snd (atomic_commit \<lparr> ao_checks = [], ao_mutations = ms \<rparr> kv)) =
     (\<lambda>k. map_option entry_value (DAList.lookup (fold (apply_mutation (Suc (kv_clock kv))) ms (kv_entries kv)) k))"
    by (rule ext) (simp add: kvv_def kv_get_def commit_unchecked)
  also have "\<dots> = fold mutation_map ms (\<lambda>k. map_option entry_value (DAList.lookup (kv_entries kv) k))"
    by (rule kvv_fold)
  also have "(\<lambda>k. map_option entry_value (DAList.lookup (kv_entries kv) k)) = kvv kv"
    by (rule ext) (simp add: kvv_def kv_get_def)
  finally show ?thesis .
qed

lemma fold_deletes:
  "fold mutation_map (map KvDelete ks) m = (\<lambda>k. if k \<in> set ks then None else m k)"
  by (induction ks arbitrary: m) (auto simp: fun_eq_iff)

lemma fold_sets:
  "fold mutation_map (map (\<lambda>r. KvSet (fst r) (f (snd r))) rows) m =
     (\<lambda>k. case map_of (rev rows) k of Some r \<Rightarrow> Some (f r) | None \<Rightarrow> m k)"
proof (induction rows arbitrary: m)
  case Nil
  then show ?case by simp
next
  case (Cons x rows)
  show ?case
    unfolding list.map fold.simps comp_def mutation_map.simps Cons.IH
    by (rule ext) (auto simp: map_of_append map_add_def split: option.splits)
qed

lemma emit_rows_key_shape:
  assumes "(k, r) \<in> set (emit_rows mapper vp docId d)"
  shows "strict_prefix vp k" "last k = KString docId" "row_doc r = d"
  using assms by (auto simp: emit_rows_def emit_row_def strict_prefix_def)

lemma updateViewForDoc_kvv:
  "kvv (c_kv (updateViewForDoc v mapper docId doc db)) =
     (case doc of
        None \<Rightarrow>
          (\<lambda>k. if k = getViewRefKey (c_namespace db) v docId
                   \<or> k \<in> set (existing_keys (c_kv db) (getViewRefKey (c_namespace db) v docId))
                then None else kvv (c_kv db) k)
      | Some d \<Rightarrow>
          (\<lambda>k. if k = getViewRefKey (c_namespace db) v docId
                then Some (RefValue (map fst (emit_rows mapper (getViewKey (c_namespace db) v) docId d)))
                else (case map_of (rev (emit_rows mapper (getViewKey (c_namespace db) v) docId d)) k of
                        Some r \<Rightarrow> Some (RowValue r)
                      | None \<Rightarrow>
                          if k \<in> set (existing_keys (c_kv db) (getViewRefKey (c_namespace db) v docId))
                          then None else kvv (c_kv db) k)))"
  unfolding updateViewForDoc_kv kvv_commit_unchecked update_mutations_def
  by (cases doc) (auto simp: fold_deletes fold_sets [where f = RowValue] fun_eq_iff split: option.splits)

lemma existing_keys_view_ok:
  assumes "view_ok ns v mapper g (kvv kv)"
  shows "existing_keys kv (getViewRefKey ns v docId) =
     (case g docId of None \<Rightarrow> [] | Some d \<Rightarrow> map fst (emit_rows mapper (getViewKey ns v) docId d))"
proof -
  have "kvv kv (getViewRefKey ns v docId) = expected_ref (getViewKey ns v) mapper g docId"
    using assms by (simp add: view_ok_def)
  then show ?thesis
    by (cases "g docId"; cases "kv_get kv (getViewRefKey ns v docId)")
       (auto simp: existing_keys_def kvv_def expected_ref_def)
qed

lemma existing_keys_shape:
  assumes "view_ok ns v mapper g (kvv kv)" "k \<in> set (existing_keys kv (getViewRefKey ns v docId))"
  shows "strict_prefix (getViewKey ns v) k \<and> last k = KString docId"
  using assms(2) unfolding existing_keys_view_ok [OF assms(1)]
  by (cases "g docId") (auto dest: emit_rows_key_shape)

lemma refkey_not_row: "\<not> strict_prefix (getViewKey ns v) (getViewRefKey ns' v' docId)"
  by (auto simp: strict_prefix_def prefix_def key_defs)

lemma map_of_rev_None: "map_of (rev rows) k = None \<longleftrightarrow> k \<notin> fst ` set rows"
  by (simp add: map_of_eq_None_iff)

lemma updateViewForDoc_view_ok:
  assumes ok: "view_ok (c_namespace db) v mapper g (kvv (c_kv db))"
  shows "view_ok (c_namespace db) v mapper (g(docId := doc)) (kvv (c_kv (updateViewForDoc v mapper docId doc db)))"
proof -
  let ?ns = "c_namespace db"
  let ?vp = "getViewKey ?ns v"
  let ?ref = "getViewRefKey ?ns v docId"
  let ?old = "existing_keys (c_kv db) ?ref"
  let ?m = "kvv (c_kv db)"
  let ?m' = "kvv (c_kv (updateViewForDoc v mapper docId doc db))"
  have old_shape: "\<And>k. k \<in> set ?old \<Longrightarrow> strict_prefix ?vp k \<and> last k = KString docId"
    using existing_keys_shape [OF ok] by blast
  have refs: "?m' (getViewRefKey ?ns v i) = expected_ref ?vp mapper (g(docId := doc)) i" for i
  proof (cases "i = docId")
    case True
    then show ?thesis
      by (cases doc) (simp_all add: updateViewForDoc_kvv expected_ref_def)
  next
    case False
    then have ne: "getViewRefKey ?ns v i \<noteq> ?ref" by (simp add: key_defs)
    have notold: "getViewRefKey ?ns v i \<notin> set ?old"
      using old_shape refkey_not_row by blast
    have notrow: "map_of (rev (emit_rows mapper ?vp docId d)) (getViewRefKey ?ns v i) = None" for d
      unfolding map_of_rev_None using refkey_not_row emit_rows_key_shape(1) by fastforce
    have "?m' (getViewRefKey ?ns v i) = ?m (getViewRefKey ?ns v i)"
      using ne notold notrow by (cases doc) (simp_all add: updateViewForDoc_kvv)
    also have "\<dots> = expected_ref ?vp mapper g i" using ok by (simp add: view_ok_def)
    also have "\<dots> = expected_ref ?vp mapper (g(docId := doc)) i"
      using False by (simp add: expected_ref_def)
    finally show ?thesis .
  qed
  have rows: "?m' k = expected_row ?vp mapper (g(docId := doc)) k" if pre: "strict_prefix ?vp k" for k
  proof -
    have ne: "k \<noteq> ?ref" using pre refkey_not_row by blast
    have mk: "?m k = expected_row ?vp mapper g k" using ok pre by (simp add: view_ok_def)
    show ?thesis
    proof (cases "last k = KString docId")
      case True
      have cleared: "k \<notin> set ?old \<Longrightarrow> ?m k = None"
        unfolding mk existing_keys_view_ok [OF ok]
        by (cases "g docId") (auto simp: expected_row_def True map_of_rev_None)
      show ?thesis
        using ne cleared
        by (cases doc) (auto simp: updateViewForDoc_kvv expected_row_def True split: option.splits)
    next
      case False
      have notold: "k \<notin> set ?old" using old_shape False by blast
      have notrow: "map_of (rev (emit_rows mapper ?vp docId d)) k = None" for d
        unfolding map_of_rev_None using False emit_rows_key_shape(2) by fastforce
      have "?m' k = ?m k"
        using ne notold notrow by (cases doc) (simp_all add: updateViewForDoc_kvv)
      also have "\<dots> = expected_row ?vp mapper (g(docId := doc)) k"
        unfolding mk using False by (auto simp: expected_row_def split: KvKeyPart.splits)
      finally show ?thesis .
    qed
  qed
  show ?thesis unfolding view_ok_def using refs rows by blast
qed

lemma updateViewForDoc_frame:
  assumes ok: "view_ok (c_namespace db) v mapper g (kvv (c_kv db))"
    and "\<not> strict_prefix (getViewKey (c_namespace db) v) k"
    and "k \<noteq> getViewRefKey (c_namespace db) v docId"
  shows "kvv (c_kv (updateViewForDoc v mapper docId doc db)) k = kvv (c_kv db) k"
proof -
  have notold: "k \<notin> set (existing_keys (c_kv db) (getViewRefKey (c_namespace db) v docId))"
    using existing_keys_shape [OF ok] assms(2) by blast
  have notrow: "map_of (rev (emit_rows mapper (getViewKey (c_namespace db) v) docId d)) k = None" for d
    unfolding map_of_rev_None using assms(2) emit_rows_key_shape(1) by fastforce
  show ?thesis
    using assms(3) notold notrow by (cases doc) (simp_all add: updateViewForDoc_kvv)
qed

lemma other_view_prefix:
  "v' \<noteq> v \<Longrightarrow> strict_prefix (getViewKey ns v') k \<Longrightarrow> \<not> strict_prefix (getViewKey ns v) k"
  by (auto simp: strict_prefix_def prefix_def getViewKey_def)

lemma updateViewForDoc_other_view:
  assumes ok: "view_ok (c_namespace db) v mapper g (kvv (c_kv db))"
    and "v' \<noteq> v"
    and ok': "view_ok (c_namespace db) v' mapper' g' (kvv (c_kv db))"
  shows "view_ok (c_namespace db) v' mapper' g' (kvv (c_kv (updateViewForDoc v mapper docId doc db)))"
proof -
  have 1: "kvv (c_kv (updateViewForDoc v mapper docId doc db)) (getViewRefKey (c_namespace db) v' i) =
           kvv (c_kv db) (getViewRefKey (c_namespace db) v' i)" for i
    using updateViewForDoc_frame [OF ok, of "getViewRefKey (c_namespace db) v' i" docId doc]
      assms(2) refkey_not_row by (simp add: key_defs)
  have 2: "kvv (c_kv (updateViewForDoc v mapper docId doc db)) k = kvv (c_kv db) k"
    if "strict_prefix (getViewKey (c_namespace db) v') k" for k
    using updateViewForDoc_frame [OF ok, of k docId doc] other_view_prefix [OF assms(2) that]
      that refkey_not_row by blast
  show ?thesis using ok' unfolding view_ok_def by (simp add: 1 2)
qed

lemma updateViews_loop_view_ok:
  assumes "distinct (map fst vs)"
    and "\<forall>x \<in> set vs. view_ok (c_namespace db) (fst x) (vl_map (snd x)) (G (fst x)) (kvv (c_kv db))"
  shows "(\<forall>x \<in> set vs. view_ok (c_namespace db) (fst x) (vl_map (snd x)) ((G (fst x))(docId := doc))
            (kvv (c_kv (updateViews_loop vs docId doc db)))) \<and>
         (\<forall>v' f' g'. v' \<notin> fst ` set vs \<longrightarrow> view_ok (c_namespace db) v' f' g' (kvv (c_kv db)) \<longrightarrow>
            view_ok (c_namespace db) v' f' g' (kvv (c_kv (updateViews_loop vs docId doc db))))"
  using assms
proof (induction vs arbitrary: db)
  case Nil
  then show ?case by simp
next
  case (Cons a vs)
  let ?db1 = "updateViewForDoc (fst a) (vl_map (snd a)) docId doc db"
  have oka: "view_ok (c_namespace db) (fst a) (vl_map (snd a)) (G (fst a)) (kvv (c_kv db))"
    using Cons.prems(2) by simp
  have a1: "view_ok (c_namespace db) (fst a) (vl_map (snd a)) ((G (fst a))(docId := doc)) (kvv (c_kv ?db1))"
    using updateViewForDoc_view_ok [OF oka] .
  have others: "view_ok (c_namespace db) v' f' g' (kvv (c_kv ?db1))"
    if "v' \<noteq> fst a" "view_ok (c_namespace db) v' f' g' (kvv (c_kv db))" for v' f' g'
    using updateViewForDoc_other_view [OF oka that] .
  have pre: "\<forall>x \<in> set vs. view_ok (c_namespace ?db1) (fst x) (vl_map (snd x)) (G (fst x)) (kvv (c_kv ?db1))"
  proof
    fix x assume x: "x \<in> set vs"
    then have "fst x \<noteq> fst a" using Cons.prems(1) by (metis distinct.simps(2) image_eqI list.simps(9) set_map)
    moreover have "view_ok (c_namespace db) (fst x) (vl_map (snd x)) (G (fst x)) (kvv (c_kv db))"
      using Cons.prems(2) x by simp
    ultimately show "view_ok (c_namespace ?db1) (fst x) (vl_map (snd x)) (G (fst x)) (kvv (c_kv ?db1))"
      using others by simp
  qed
  have dist: "distinct (map fst vs)" using Cons.prems(1) by simp
  have ns1: "c_namespace ?db1 = c_namespace db" by simp
  note IH = Cons.IH [OF dist pre, unfolded ns1]
  have IH1: "view_ok (c_namespace db) (fst x) (vl_map (snd x)) ((G (fst x))(docId := doc))
            (kvv (c_kv (updateViews_loop vs docId doc ?db1)))" if "x \<in> set vs" for x
    using IH that by blast
  have IH2: "view_ok (c_namespace db) v' f' g' (kvv (c_kv (updateViews_loop vs docId doc ?db1)))"
    if "v' \<notin> fst ` set vs" "view_ok (c_namespace db) v' f' g' (kvv (c_kv ?db1))" for v' f' g'
    using IH that by blast
  have nota: "fst a \<notin> fst ` set vs" using Cons.prems(1) by auto
  have loop: "updateViews_loop (a # vs) docId doc db = updateViews_loop vs docId doc ?db1" by simp
  show ?case
    unfolding loop
  proof (intro conjI ballI allI impI)
    fix x assume xin: "x \<in> set (a # vs)"
    show "view_ok (c_namespace db) (fst x) (vl_map (snd x)) ((G (fst x))(docId := doc))
            (kvv (c_kv (updateViews_loop vs docId doc ?db1)))"
    proof (cases "x = a")
      case True
      show ?thesis unfolding True by (rule IH2 [OF nota a1])
    next
      case False
      then have "x \<in> set vs" using xin by simp
      then show ?thesis by (rule IH1)
    qed
  next
    fix v' f' g'
    assume "v' \<notin> fst ` set (a # vs)" "view_ok (c_namespace db) v' f' g' (kvv (c_kv db))"
    then have "view_ok (c_namespace db) v' f' g' (kvv (c_kv ?db1))" "v' \<notin> fst ` set vs"
      using others by auto
    then show "view_ok (c_namespace db) v' f' g' (kvv (c_kv (updateViews_loop vs docId doc ?db1)))"
      using IH2 by blast
  qed
qed

lemma updateViewsForDoc_view_ok:
  assumes "distinct (map fst (c_views db))"
    and "\<forall>x \<in> set (c_views db). view_ok (c_namespace db) (fst x) (vl_map (snd x)) (G (fst x)) (kvv (c_kv db))"
  shows "\<forall>x \<in> set (c_views db). view_ok (c_namespace db) (fst x) (vl_map (snd x)) ((G (fst x))(docId := doc))
            (kvv (c_kv (updateViewsForDoc docId doc db)))"
  unfolding updateViewsForDoc_def
  using updateViews_loop_view_ok [OF assms, of docId doc] by blast

lemma view_ok_agree:
  assumes "\<And>k. key_kind k = ''view'' \<or> key_kind k = ''viewref'' \<Longrightarrow> m' k = m k"
  shows "view_ok ns v f g m' = view_ok ns v f g m"
  unfolding view_ok_def using assms strict_prefix_view_kind [of ns v] key_kind_viewref [of ns v]
  by auto

lemma commit_checked_delete:
  "atomic_commit (atomic_delete k (atomic_check k c atomic)) kv =
     (if map_option entry_versionstamp (kv_get kv k) = c then
        (Some (Suc (kv_clock kv)),
         \<lparr> kv_entries = DAList.delete k (kv_entries kv), kv_clock = Suc (kv_clock kv) \<rparr>)
      else (None, kv))"
  by (simp add: atomic_commit_def atomic_delete_def atomic_check_def atomic_def check_holds_def Let_def)

lemma refs_name_rows_delete:
  assumes "refs_name_rows kv"
  shows "refs_name_rows \<lparr> kv_entries = DAList.delete k (kv_entries kv), kv_clock = c \<rparr>"
  using assms unfolding refs_name_rows_iff
  by (auto simp: kv_get_def split: if_splits)

text \<open>The effect of a successful write of a document on the consistency of the views.\<close>

lemma document_write_consistent:
  assumes cons: "consistent db"
    and kv1: "\<And>k. k \<noteq> getDocumentKey (c_namespace db) docId \<Longrightarrow> kv_get kv1 k = kv_get (c_kv db) k"
    and refs1: "refs_name_rows kv1"
    and get1: "Cushion_get docId (db\<lparr> c_kv := kv1 \<rparr>) = doc"
  shows "consistent (updateViewsForDoc docId doc (db\<lparr> c_kv := kv1 \<rparr>))"
proof -
  let ?db1 = "db\<lparr> c_kv := kv1 \<rparr>"
  let ?db2 = "updateViewsForDoc docId doc ?db1"
  let ?g = "\<lambda>i. Cushion_get i db"
  have dist: "distinct (map fst (c_views ?db1))" using cons by (simp add: consistent_def)
  have agree: "kvv kv1 k = kvv (c_kv db) k" if "key_kind k = ''view'' \<or> key_kind k = ''viewref''" for k
  proof -
    have "k \<noteq> getDocumentKey (c_namespace db) docId" using that by auto
    then show ?thesis using kv1 [of k] by (simp add: kvv_def)
  qed
  have pre: "\<forall>x \<in> set (c_views ?db1). view_ok (c_namespace ?db1) (fst x) (vl_map (snd x)) ?g (kvv (c_kv ?db1))"
    using cons view_ok_agree [OF agree] by (simp add: consistent_def)
  have post: "\<forall>x \<in> set (c_views ?db1). view_ok (c_namespace ?db1) (fst x) (vl_map (snd x)) (?g(docId := doc)) (kvv (c_kv ?db2))"
    using updateViewsForDoc_view_ok [OF dist, where G = "\<lambda>_. ?g", OF pre] .
  have refs1': "refs_name_rows (c_kv ?db1)" using refs1 by simp
  note props = updateViewsForDoc_props [OF refs1', where docId = docId and doc = doc]
  have getf: "(\<lambda>i. Cushion_get i ?db2) = ?g(docId := doc)"
  proof (rule ext)
    fix i
    have same: "kv_get (c_kv ?db2) (getDocumentKey (c_namespace db) i) = kv_get kv1 (getDocumentKey (c_namespace db) i)"
      using props(4) [where k = "getDocumentKey (c_namespace db) i"] by simp
    show "Cushion_get i ?db2 = (?g(docId := doc)) i"
    proof (cases "i = docId")
      case True
      then show ?thesis using same get1 props(2) by (simp add: Cushion_get_def)
    next
      case False
      then have "getDocumentKey (c_namespace db) i \<noteq> getDocumentKey (c_namespace db) docId"
        by (simp add: key_defs)
      then show ?thesis using same kv1 props(2) False by (simp add: Cushion_get_def)
    qed
  qed
  show ?thesis
    unfolding consistent_def getf
    using props(1,2,3) post dist by simp
qed

lemma insert_consistent:
  assumes "consistent db"
  shows "consistent (snd (Cushion_insert uuid doc db))"
proof -
  let ?id = "insert_id doc uuid"
  let ?k = "getDocumentKey (c_namespace db) ?id"
  let ?v = "Suc (kv_clock (c_kv db))"
  let ?init = "doc(''_id'' \<mapsto> JString ?id)"
  let ?kv1 = "\<lparr> kv_entries = DAList.update ?k \<lparr> entry_value = DocValue ?init, entry_versionstamp = ?v \<rparr> (kv_entries (c_kv db)),
           kv_clock = ?v \<rparr>"
  show ?thesis
  proof (cases "doc ''_rev'' = None \<and> kv_get (c_kv db) ?k = None")
    case False
    then have "snd (Cushion_insert uuid doc db) = db"
      by (auto simp: Cushion_insert_def Let_def commit_checked_set)
    then show ?thesis using assms by simp
  next
    case True
    then have ins: "snd (Cushion_insert uuid doc db) =
        updateViewsForDoc ?id (Some (?init(''_rev'' \<mapsto> JStamp ?v))) (db\<lparr> c_kv := ?kv1 \<rparr>)"
      by (simp add: Cushion_insert_def Let_def commit_checked_set)
    have refs: "refs_name_rows (c_kv db)" using assms by (simp add: consistent_def)
    show ?thesis
      unfolding ins
    proof (rule document_write_consistent [OF assms])
      show "kv_get ?kv1 k = kv_get (c_kv db) k" if "k \<noteq> ?k" for k
        using that by (simp add: kv_get_def DAList.lookup_update)
      show "refs_name_rows ?kv1"
        using refs_name_rows_set [OF refs, of "DocValue ?init"] by (simp add: names_rows_def)
      show "Cushion_get ?id (db\<lparr> c_kv := ?kv1 \<rparr>) = Some (?init(''_rev'' \<mapsto> JStamp ?v))"
        by (simp add: Cushion_get_def kv_get_def)
    qed
  qed
qed

lemma replace_consistent:
  assumes "consistent db"
  shows "consistent (snd (Cushion_replace docId rev' doc db))"
proof -
  let ?k = "getDocumentKey (c_namespace db) docId"
  let ?v = "Suc (kv_clock (c_kv db))"
  let ?u = "(doc(''_rev'' := None))(''_id'' \<mapsto> JString docId)"
  let ?kv1 = "\<lparr> kv_entries = DAList.update ?k \<lparr> entry_value = DocValue ?u, entry_versionstamp = ?v \<rparr> (kv_entries (c_kv db)),
           kv_clock = ?v \<rparr>"
  show ?thesis
  proof (cases "map_option entry_versionstamp (kv_get (c_kv db) ?k) = Some rev'")
    case False
    then have "snd (Cushion_replace docId rev' doc db) = db"
      by (auto simp: Cushion_replace_def Let_def commit_checked_set)
    then show ?thesis using assms by simp
  next
    case True
    then have rep: "snd (Cushion_replace docId rev' doc db) =
        updateViewsForDoc docId (Some (?u(''_rev'' \<mapsto> JStamp ?v))) (db\<lparr> c_kv := ?kv1 \<rparr>)"
      by (simp add: Cushion_replace_def Let_def commit_checked_set)
    have refs: "refs_name_rows (c_kv db)" using assms by (simp add: consistent_def)
    show ?thesis
      unfolding rep
    proof (rule document_write_consistent [OF assms])
      show "kv_get ?kv1 k = kv_get (c_kv db) k" if "k \<noteq> ?k" for k
        using that by (simp add: kv_get_def DAList.lookup_update)
      show "refs_name_rows ?kv1"
        using refs_name_rows_set [OF refs, of "DocValue ?u"] by (simp add: names_rows_def)
      show "Cushion_get docId (db\<lparr> c_kv := ?kv1 \<rparr>) = Some (?u(''_rev'' \<mapsto> JStamp ?v))"
        by (simp add: Cushion_get_def kv_get_def)
    qed
  qed
qed

lemma remove_consistent:
  assumes "consistent db"
  shows "consistent (snd (Cushion_remove docId rev' db))"
proof -
  let ?k = "getDocumentKey (c_namespace db) docId"
  let ?kv1 = "\<lparr> kv_entries = DAList.delete ?k (kv_entries (c_kv db)), kv_clock = Suc (kv_clock (c_kv db)) \<rparr>"
  show ?thesis
  proof (cases "map_option entry_versionstamp (kv_get (c_kv db) ?k) = Some rev'")
    case False
    then have "snd (Cushion_remove docId rev' db) = db"
      by (auto simp: Cushion_remove_def Let_def commit_checked_delete)
    then show ?thesis using assms by simp
  next
    case True
    then have rem: "snd (Cushion_remove docId rev' db) =
        updateViewsForDoc docId None (db\<lparr> c_kv := ?kv1 \<rparr>)"
      by (simp add: Cushion_remove_def Let_def commit_checked_delete)
    have refs: "refs_name_rows (c_kv db)" using assms by (simp add: consistent_def)
    show ?thesis
      unfolding rem
    proof (rule document_write_consistent [OF assms])
      show "kv_get ?kv1 k = kv_get (c_kv db) k" if "k \<noteq> ?k" for k
        using that by (simp add: kv_get_def)
      show "refs_name_rows ?kv1" using refs_name_rows_delete [OF refs] .
      show "Cushion_get docId (db\<lparr> c_kv := ?kv1 \<rparr>) = None"
        by (simp add: Cushion_get_def kv_get_def)
    qed
  qed
qed

lemma run_operation_consistent: "consistent db \<Longrightarrow> consistent (run_operation db op)"
  by (cases op) (simp_all add: insert_consistent replace_consistent remove_consistent)

lemma run_operations_consistent: "consistent db \<Longrightarrow> consistent (foldl run_operation db ops)"
  by (induction ops arbitrary: db) (simp_all add: run_operation_consistent)

lemma kv_list_none:
  assumes "\<And>k e. kv_get kv k = Some e \<Longrightarrow> \<not> selects sel k"
  shows "kv_list kv sel = []"
proof -
  have "filter (\<lambda>x. selects sel (fst x)) (DAList.impl_of (kv_entries kv)) = []"
    unfolding filter_empty_conv using assms by (auto simp: kv_get_def lookup_iff_mem)
  then show ?thesis by (simp add: kv_list_def sort_entries_def)
qed

lemma only_design_kind:
  "only_design kv \<Longrightarrow> kv_get kv k = Some e \<Longrightarrow> key_kind k = ''design''"
  by (simp add: only_design_def)

lemma only_design_lists:
  assumes "only_design kv"
  shows "kv_list kv (PrefixSelector (getViewKey ns v)) = []"
    and "kv_list kv (PrefixSelector (getViewRefPrefix ns v)) = []"
    and "kv_list kv (PrefixSelector (getDocPrefix ns)) = []"
proof -
  show "kv_list kv (PrefixSelector (getViewKey ns v)) = []"
    using only_design_kind [OF assms] strict_prefix_view_kind [of ns v]
    by (intro kv_list_none) fastforce
  show "kv_list kv (PrefixSelector (getViewRefPrefix ns v)) = []"
    using only_design_kind [OF assms] strict_prefix_viewref_kind [of ns v]
    by (intro kv_list_none) fastforce
  show "kv_list kv (PrefixSelector (getDocPrefix ns)) = []"
    using only_design_kind [OF assms] strict_prefix_doc_kind [of ns]
    by (intro kv_list_none) fastforce
qed

lemma rebuildView_only_design:
  assumes "only_design (c_kv db)"
  shows "rebuildView v mapper sig db =
     db\<lparr> c_kv := kv_set (getDesignKey (c_namespace db) v)
                    (DesignValue \<lparr> vs_signature = sig, vs_state = Ready \<rparr>) (c_kv db) \<rparr>"
  by (simp add: rebuildView_def rebuild_delete_def delete_prefix_def rebuild_map_def commit_rest_def
      only_design_lists [OF assms] Let_def)

lemma kv_set_only_design:
  assumes "only_design kv"
  shows "only_design (kv_set (getDesignKey ns v) (DesignValue s) kv)"
  unfolding only_design_def
proof (intro allI impI)
  fix k e assume "kv_get (kv_set (getDesignKey ns v) (DesignValue s) kv) k = Some e"
  then show "key_kind k = ''design'' \<and> (\<exists>s. entry_value e = DesignValue s)"
    using assms kv_set_get_same [of "getDesignKey ns v" "DesignValue s" kv]
      kv_set_get_other [of k "getDesignKey ns v" "DesignValue s" kv]
    by (cases "k = getDesignKey ns v") (auto simp: only_design_def)
qed

lemma defineView_only_design:
  assumes "only_design (c_kv db)" "distinct (map fst (c_views db))"
  shows "only_design (c_kv (Cushion_defineView digest v f r db))"
    and "distinct (map fst (c_views (Cushion_defineView digest v f r db)))"
proof -
  let ?db' = "db\<lparr> c_views := AList.update v \<lparr> vl_map = f, vl_reduce = r \<rparr> (c_views db) \<rparr>"
  have od: "only_design (c_kv ?db')" using assms(1) by simp
  have cases: "Cushion_defineView digest v f r db = ?db' \<or>
      Cushion_defineView digest v f r db = rebuildView v f (hashFunction digest f) ?db'"
    by (simp add: Cushion_defineView_def Let_def)
  have d: "distinct (map fst (c_views ?db'))"
    using assms(2) by (simp add: distinct_update)
  show "only_design (c_kv (Cushion_defineView digest v f r db))"
    using cases od kv_set_only_design [OF assms(1)]
    by (auto simp: rebuildView_only_design [OF od])
  show "distinct (map fst (c_views (Cushion_defineView digest v f r db)))"
    using cases d by (auto simp: rebuildView_fields)
qed

lemma define_views_props:
  assumes "only_design (c_kv db)" "distinct (map fst (c_views db))"
  shows "only_design (c_kv (define_views digest xs db))"
    and "distinct (map fst (c_views (define_views digest xs db)))"
    and "c_namespace (define_views digest xs db) = c_namespace db"
  using assms
proof (induction xs arbitrary: db)
  case Nil
  {
    case 1 then show ?case by simp
  next
    case 2 then show ?case by simp
  next
    case 3 then show ?case by simp
  }
next
  case (Cons x xs)
  {
    case 1 then show ?case using Cons.IH(1) defineView_only_design by simp
  next
    case 2 then show ?case using Cons.IH(2) defineView_only_design by simp
  next
    case 3 then show ?case using Cons.IH(3) defineView_only_design by simp
  }
qed

lemma only_design_consistent:
  assumes "only_design (c_kv db)" "distinct (map fst (c_views db))"
  shows "consistent db"
proof -
  have none: "kv_get (c_kv db) k = None" if "key_kind k \<noteq> ''design''" for k
    using assms(1) that by (cases "kv_get (c_kv db) k") (auto simp: only_design_def)
  have refs: "refs_name_rows (c_kv db)"
    unfolding refs_name_rows_iff using assms(1) by (fastforce simp: only_design_def names_rows_def)
  have nodoc: "Cushion_get i db = None" for i
    using none [of "getDocumentKey (c_namespace db) i"] by (simp add: Cushion_get_def)
  have ok: "view_ok (c_namespace db) v f (\<lambda>i. Cushion_get i db) (kvv (c_kv db))" for v f
    unfolding view_ok_def nodoc
    using none strict_prefix_view_kind [of "c_namespace db" v]
    by (auto simp: kvv_def expected_ref_def expected_row_def split: KvKeyPart.splits)
  show ?thesis unfolding consistent_def using refs assms(2) ok by simp
qed

lemma run_operation_fields:
  assumes "refs_name_rows (c_kv db)"
  shows "c_namespace (run_operation db op) = c_namespace db"
    and "c_views (run_operation db op) = c_views db"
proof -
  have set1: "refs_name_rows (c_kv (db\<lparr> c_kv := \<lparr> kv_entries = DAList.update k \<lparr> entry_value = DocValue d, entry_versionstamp = v \<rparr> (kv_entries (c_kv db)), kv_clock = c \<rparr> \<rparr>))" for k d v c
    using refs_name_rows_set [OF assms, of "DocValue d"] by (simp add: names_rows_def)
  have del1: "refs_name_rows (c_kv (db\<lparr> c_kv := \<lparr> kv_entries = DAList.delete k (kv_entries (c_kv db)), kv_clock = c \<rparr> \<rparr>))" for k c
    using refs_name_rows_delete [OF assms] by simp
  show "c_namespace (run_operation db op) = c_namespace db"
    by (cases op)
       (auto simp: Cushion_insert_def Cushion_replace_def Cushion_remove_def Let_def
          commit_checked_set commit_checked_delete
          updateViewsForDoc_props(2) [OF set1] updateViewsForDoc_props(2) [OF del1])
  show "c_views (run_operation db op) = c_views db"
    by (cases op)
       (auto simp: Cushion_insert_def Cushion_replace_def Cushion_remove_def Let_def
          commit_checked_set commit_checked_delete
          updateViewsForDoc_props(3) [OF set1] updateViewsForDoc_props(3) [OF del1])
qed

lemma open_empty: "only_design (c_kv (Cushion_open ns kv_empty))" "c_views (Cushion_open ns kv_empty) = []"
  "c_namespace (Cushion_open ns kv_empty) = ns"
  by (simp_all add: Cushion_open_def only_design_def kv_get_def kv_empty_def)

lemma alice_twice:
  "fn_emits twice (alice(''_rev'' \<mapsto> JStamp v)) =
     [(EmitPart (KString ''Alice''), JNumber (Finite 1)), (EmitPart (KString ''Alice''), JNumber (Finite 2))]"
  by (simp add: twice_def alice_def)

lemma test_db_twice_eq:
  "test_db_twice =
     \<lparr> c_kv = \<lparr> kv_entries =
                  DAList.update [KString ''test'', KString ''viewref'', KString ''twice'', KString ''alice'']
                    \<lparr> entry_value = RefValue
                        [[KString ''test'', KString ''view'', KString ''twice'', KString ''Alice'', KString ''alice''],
                         [KString ''test'', KString ''view'', KString ''twice'', KString ''Alice'', KString ''alice'']],
                      entry_versionstamp = 3 \<rparr>
                 (DAList.update [KString ''test'', KString ''view'', KString ''twice'', KString ''Alice'', KString ''alice'']
                    \<lparr> entry_value = RowValue \<lparr> row_value = JNumber (Finite 2), row_doc = alice(''_rev'' \<mapsto> JStamp 2) \<rparr>,
                      entry_versionstamp = 3 \<rparr>
                 (DAList.update [KString ''test'', KString ''doc'', KString ''alice'']
                    \<lparr> entry_value = DocValue alice, entry_versionstamp = 2 \<rparr>
                 (DAList.update [KString ''test'', KString ''design'', KString ''twice'']
                    \<lparr> entry_value = DesignValue \<lparr> vs_signature = fn_text twice, vs_state = Ready \<rparr>,
                      entry_versionstamp = 1 \<rparr> DAList.empty))),
                kv_clock = 3 \<rparr>,
       c_namespace = ''test'',
       c_views = [(''twice'', \<lparr> vl_map = twice, vl_reduce = None \<rparr>)],
       c_mapCalls = 1 \<rparr>"
proof -
  have start: "define_views (\<lambda>text. text) [(''twice'', twice, None)] (Cushion_open ''test'' kv_empty) =
     \<lparr> c_kv = \<lparr> kv_entries = DAList.update (getDesignKey ''test'' ''twice'')
                    \<lparr> entry_value = DesignValue \<lparr> vs_signature = fn_text twice, vs_state = Ready \<rparr>,
                      entry_versionstamp = 1 \<rparr> DAList.empty,
                kv_clock = 1 \<rparr>,
       c_namespace = ''test'',
       c_views = [(''twice'', \<lparr> vl_map = twice, vl_reduce = None \<rparr>)],
       c_mapCalls = 0 \<rparr>"
    by (simp add: Cushion_defineView_def Cushion_open_def design_record_def kv_get_def
        kv_empty_def [symmetric] rebuildView_def rebuild_delete_def delete_prefix_def commit_rest_def
        rebuild_map_def hashFunction_def kv_set_def atomic_commit_def atomic_set_def atomic_def Let_def)
       (simp add: kv_empty_def)
  show ?thesis
    unfolding test_db_twice_def start
    by (simp add: Cushion_insert_def alice_facts Let_def commit_checked_set kv_get_def
        DAList.lookup_update key_defs updateViewsForDoc_def updateViewForDoc_eq commit_unchecked
        update_mutations_def existing_keys_def
        emit_rows_def emit_row_def alice_twice nullish_to_null_def numeral_2_eq_2 numeral_3_eq_3)
qed

text \<open>
  Claim C1 as it is stated fails where a map function emits one key twice for one
  document. After \<^verbatim>\<open>insert(alice)\<close> on the database with the view \<^verbatim>\<open>twice\<close>, the map function
  produces two rows for the live document, with the values 1 and 2 and the same composite
  key; the store holds one row under the prefix of the view, with the value 2, and the row
  with the value 1 is not stored.
\<close>

theorem emitted_row_overwritten:
  "Cushion_get ''alice'' test_db_twice = Some (alice(''_rev'' \<mapsto> JStamp 2)) \<and>
   emit_rows twice (getViewKey ''test'' ''twice'') ''alice'' (alice(''_rev'' \<mapsto> JStamp 2)) =
     [([KString ''test'', KString ''view'', KString ''twice'', KString ''Alice'', KString ''alice''],
       \<lparr> row_value = JNumber (Finite 1), row_doc = alice(''_rev'' \<mapsto> JStamp 2) \<rparr>),
      ([KString ''test'', KString ''view'', KString ''twice'', KString ''Alice'', KString ''alice''],
       \<lparr> row_value = JNumber (Finite 2), row_doc = alice(''_rev'' \<mapsto> JStamp 2) \<rparr>)] \<and>
   map (\<lambda>x. (fst x, entry_value (snd x)))
     (kv_list (c_kv test_db_twice) (PrefixSelector (getViewKey ''test'' ''twice''))) =
     [([KString ''test'', KString ''view'', KString ''twice'', KString ''Alice'', KString ''alice''],
       RowValue \<lparr> row_value = JNumber (Finite 2), row_doc = alice(''_rev'' \<mapsto> JStamp 2) \<rparr>)] \<and>
   kvv (c_kv test_db_twice) [KString ''test'', KString ''view'', KString ''twice'', KString ''Alice'', KString ''alice''] \<noteq>
     Some (RowValue \<lparr> row_value = JNumber (Finite 1), row_doc = alice(''_rev'' \<mapsto> JStamp 2) \<rparr>)"
proof -
  have "Cushion_get ''alice'' test_db_twice = Some (alice(''_rev'' \<mapsto> JStamp 2))"
    by (simp add: Cushion_get_def test_db_twice_eq kv_get_def DAList.lookup_update key_defs)
  moreover have "emit_rows twice (getViewKey ''test'' ''twice'') ''alice'' (alice(''_rev'' \<mapsto> JStamp 2)) =
     [([KString ''test'', KString ''view'', KString ''twice'', KString ''Alice'', KString ''alice''],
       \<lparr> row_value = JNumber (Finite 1), row_doc = alice(''_rev'' \<mapsto> JStamp 2) \<rparr>),
      ([KString ''test'', KString ''view'', KString ''twice'', KString ''Alice'', KString ''alice''],
       \<lparr> row_value = JNumber (Finite 2), row_doc = alice(''_rev'' \<mapsto> JStamp 2) \<rparr>)]"
    by (simp add: emit_rows_def emit_row_def alice_twice nullish_to_null_def key_defs)
  moreover have "map (\<lambda>x. (fst x, entry_value (snd x)))
     (kv_list (c_kv test_db_twice) (PrefixSelector (getViewKey ''test'' ''twice''))) =
     [([KString ''test'', KString ''view'', KString ''twice'', KString ''Alice'', KString ''alice''],
       RowValue \<lparr> row_value = JNumber (Finite 2), row_doc = alice(''_rev'' \<mapsto> JStamp 2) \<rparr>)]"
    by (simp add: kv_list_def test_db_twice_eq DAList.update.rep_eq DAList.empty.rep_eq key_defs
        sort_entries_def strict_prefix_def)
  moreover have "kvv (c_kv test_db_twice) [KString ''test'', KString ''view'', KString ''twice'', KString ''Alice'', KString ''alice''] \<noteq>
     Some (RowValue \<lparr> row_value = JNumber (Finite 1), row_doc = alice(''_rev'' \<mapsto> JStamp 2) \<rparr>)"
    by (simp add: kvv_def test_db_twice_eq kv_get_def DAList.lookup_update)
  ultimately show ?thesis by blast
qed

section \<open>Snapshots of documents in view rows\<close>

subsection \<open>The rows a rebuild writes\<close>

lemma commit_flushed:
  "ao_checks ao = [] \<Longrightarrow> kvv (snd (atomic_commit ao kv)) = flushed (kv, ao, n)"
  using kvv_commit_unchecked [of "ao_mutations ao" kv]
  by (cases ao) (simp add: flushed_def)

lemma flushed_atomic [simp]: "flushed (kv, atomic, n) = kvv kv"
  by (simp add: flushed_def atomic_def)

lemma batch_ok_atomic [simp]: "batch_ok (kv, atomic, 0)"
  by (simp add: batch_ok_def atomic_def)

lemma commit_rest_flushed:
  assumes "batch_ok st"
  shows "kvv (commit_rest st) = flushed st"
proof -
  obtain kv ao n where st: "st = (kv, ao, n)" by (cases st) auto
  show ?thesis
  proof (cases "n > 0")
    case True
    then show ?thesis using assms commit_flushed [of ao kv n]
      by (simp add: st commit_rest_def batch_ok_def)
  next
    case False
    then show ?thesis using assms by (simp add: st commit_rest_def batch_ok_def flushed_def)
  qed
qed

lemma delete_entries_flushed:
  assumes "batch_ok (kv, ao, n)"
  shows "batch_ok (delete_entries ks (kv, ao, n)) \<and>
         flushed (delete_entries ks (kv, ao, n)) = fold mutation_map (map KvDelete ks) (flushed (kv, ao, n))"
  using assms
proof (induction ks arbitrary: kv ao n)
  case Nil
  then show ?case by simp
next
  case (Cons k ks)
  let ?ao = "atomic_delete k ao"
  have ok': "batch_ok (kv, ?ao, n + 1)"
    using Cons.prems by (simp add: batch_ok_def atomic_delete_def)
  have fl: "flushed (kv, ?ao, m) = mutation_map (KvDelete k) (flushed (kv, ao, n))" for m
    by (simp add: flushed_def atomic_delete_def)
  show ?case
  proof (cases "n + 1 \<ge> BATCH_SIZE")
    case True
    have c: "kvv (snd (atomic_commit ?ao kv)) = flushed (kv, ?ao, n + 1)"
      using ok' by (intro commit_flushed) (simp add: batch_ok_def)
    show ?thesis
      using True Cons.IH [where kv = "snd (atomic_commit ?ao kv)" and ao = atomic and n = 0]
      by (simp add: c fl del: mutation_map.simps)
  next
    case False
    then show ?thesis
      using Cons.IH [where kv = kv and ao = ?ao and n = "n + 1", OF ok']
      by (simp add: fl del: mutation_map.simps)
  qed
qed

lemma delete_prefix_flushed:
  assumes "batch_ok st"
  shows "batch_ok (delete_prefix p st) \<and>
         flushed (delete_prefix p st) =
           fold mutation_map (map KvDelete (map fst (kv_list (fst st) (PrefixSelector p)))) (flushed st)"
proof -
  obtain kv ao n where st: "st = (kv, ao, n)" by (cases st) auto
  show ?thesis
    unfolding delete_prefix_def st using delete_entries_flushed [OF assms [unfolded st]] by simp
qed

lemma rebuild_delete_kvv:
  "kvv (rebuild_delete ns v kv) k =
     (if k \<in> fst ` set (kv_list kv (PrefixSelector (getViewKey ns v))) \<or>
         k \<in> fst ` set (kv_list (fst (delete_prefix (getViewKey ns v) (kv, atomic, 0)))
                           (PrefixSelector (getViewRefPrefix ns v)))
      then None else kvv kv k)"
proof -
  let ?st1 = "delete_prefix (getViewKey ns v) (kv, atomic, 0)"
  let ?st2 = "delete_prefix (getViewRefPrefix ns v) ?st1"
  have 1: "batch_ok ?st1" "flushed ?st1 = fold mutation_map (map KvDelete (map fst (kv_list kv (PrefixSelector (getViewKey ns v))))) (kvv kv)"
    using delete_prefix_flushed [of "(kv, atomic, 0)" "getViewKey ns v"] by simp_all
  have 2: "batch_ok ?st2" "flushed ?st2 = fold mutation_map (map KvDelete (map fst (kv_list (fst ?st1) (PrefixSelector (getViewRefPrefix ns v))))) (flushed ?st1)"
    using delete_prefix_flushed [OF 1(1), of "getViewRefPrefix ns v"] by simp_all
  have "kvv (rebuild_delete ns v kv) = flushed ?st2"
    unfolding rebuild_delete_def using commit_rest_flushed [OF 2(1)] .
  then show ?thesis
    unfolding 2(2) 1(2) fold_deletes by auto
qed

lemma rebuild_delete_clears:
  assumes "strict_prefix (getViewKey ns v) k"
  shows "kvv (rebuild_delete ns v kv) k = None"
proof (cases "kv_get kv k")
  case None
  then have "kvv kv k = None" by (simp add: kvv_def)
  then show ?thesis by (simp add: rebuild_delete_kvv)
next
  case (Some e)
  then have "(k, e) \<in> set (kv_list kv (PrefixSelector (getViewKey ns v)))"
    using assms by (simp add: kv_list_mem)
  then have "k \<in> fst ` set (kv_list kv (PrefixSelector (getViewKey ns v)))" by force
  then show ?thesis by (simp add: rebuild_delete_kvv)
qed

lemma rebuild_delete_subset:
  "kvv (rebuild_delete ns v kv) k = Some x \<Longrightarrow> kvv kv k = Some x"
  by (simp add: rebuild_delete_kvv split: if_splits)

lemma map_documents_flushed:
  assumes "batch_ok (kv, ao, n)"
  shows "batch_ok (fst (map_documents ns v f ds ((kv, ao, n), c))) \<and>
         flushed (fst (map_documents ns v f ds ((kv, ao, n), c))) =
           fold mutation_map (concat (map (doc_mutations ns v f) ds)) (flushed (kv, ao, n))"
  using assms
proof (induction ds arbitrary: kv ao n c)
  case Nil
  then show ?case by simp
next
  case (Cons d ds)
  show ?case
  proof (cases d)
    case (DocValue doc)
    let ?rows = "emit_rows f (getViewKey ns v) (document_id doc) doc"
    let ?b = "atomic_set (getViewRefKey ns v (document_id doc)) (RefValue (map fst ?rows)) (set_rows ?rows ao)"
    have muts: "ao_mutations ?b = ao_mutations ao @ doc_mutations ns v f d"
      by (simp add: DocValue doc_mutations_def atomic_set_def set_rows_eq)
    have ok': "batch_ok (kv, ?b, n + length ?rows + 1)"
      using Cons.prems by (simp add: batch_ok_def atomic_set_def set_rows_eq)
    have fl: "flushed (kv, ?b, m) = fold mutation_map (doc_mutations ns v f d) (flushed (kv, ao, n))" for m
      by (simp add: flushed_def muts)
    show ?thesis
    proof (cases "n + length ?rows + 1 \<ge> BATCH_SIZE")
      case True
      have c: "kvv (snd (atomic_commit ?b kv)) = flushed (kv, ?b, n + length ?rows + 1)"
        using ok' by (intro commit_flushed) (simp add: batch_ok_def)
      show ?thesis
        using True DocValue
          Cons.IH [where kv = "snd (atomic_commit ?b kv)" and ao = atomic and n = 0 and c = "Suc c"]
        by (simp add: Let_def c fl del: mutation_map.simps)
    next
      case False
      then show ?thesis
        using DocValue Cons.IH [where kv = kv and ao = ?b and n = "n + length ?rows + 1" and c = "Suc c", OF ok']
        by (simp add: Let_def fl del: mutation_map.simps)
    qed
  next
    case (RowValue x)
    then show ?thesis using Cons by (simp add: doc_mutations_def)
  next
    case (RefValue x)
    then show ?thesis using Cons by (simp add: doc_mutations_def)
  next
    case (DesignValue x)
    then show ?thesis using Cons by (simp add: doc_mutations_def)
  qed
qed

lemma rebuild_map_kvv:
  "kvv (fst (rebuild_map ns v f (kv, c))) =
     fold mutation_map
       (concat (map (doc_mutations ns v f)
          (map (\<lambda>x. entry_value (snd x)) (kv_list kv (PrefixSelector (getDocPrefix ns))))))
       (kvv kv)"
proof -
  let ?docs = "map (\<lambda>x. entry_value (snd x)) (kv_list kv (PrefixSelector (getDocPrefix ns)))"
  let ?st = "map_documents ns v f ?docs ((kv, atomic, 0), c)"
  have "batch_ok (fst ?st) \<and> flushed (fst ?st) = fold mutation_map (concat (map (doc_mutations ns v f) ?docs)) (flushed (kv, atomic, 0))"
    by (rule map_documents_flushed) simp
  then show ?thesis
    unfolding rebuild_map_def using commit_rest_flushed [of "fst ?st"] by (simp add: Let_def)
qed

lemma fold_mutation_cases:
  "fold mutation_map ms m k = Some x \<Longrightarrow> m k = Some x \<or> KvSet k x \<in> set ms"
proof (induction ms arbitrary: m)
  case Nil
  then show ?case by simp
next
  case (Cons mu ms)
  from Cons.IH [of "mutation_map mu m"] Cons.prems
  have "mutation_map mu m k = Some x \<or> KvSet k x \<in> set ms" by simp
  then show ?case by (cases mu) (auto split: if_splits)
qed

lemma docs_no_rev_iff:
  "docs_no_rev kv \<longleftrightarrow> (\<forall>k d. kvv kv k = Some (DocValue d) \<longrightarrow> d ''_rev'' = None)"
proof
  assume a: "docs_no_rev kv"
  show "\<forall>k d. kvv kv k = Some (DocValue d) \<longrightarrow> d ''_rev'' = None"
  proof (intro allI impI)
    fix k d assume "kvv kv k = Some (DocValue d)"
    then obtain e where e: "kv_get kv k = Some e" "entry_value e = DocValue d"
      by (auto simp: kvv_def)
    then have "(k, e) \<in> set (DAList.impl_of (kv_entries kv))"
      by (simp add: kv_get_def lookup_iff_mem)
    with a e(2) show "d ''_rev'' = None"
      by (auto simp: docs_no_rev_def list_all_iff)
  qed
next
  assume a: "\<forall>k d. kvv kv k = Some (DocValue d) \<longrightarrow> d ''_rev'' = None"
  show "docs_no_rev kv"
    unfolding docs_no_rev_def list_all_iff
  proof
    fix x assume "x \<in> set (DAList.impl_of (kv_entries kv))"
    then have "kv_get kv (fst x) = Some (snd x)"
      using lookup_iff_mem [of "kv_entries kv" "fst x" "snd x"] by (simp add: kv_get_def)
    then have "kvv kv (fst x) = Some (entry_value (snd x))" by (simp add: kvv_def)
    with a show "case entry_value (snd x) of DocValue d \<Rightarrow> d ''_rev'' = None | _ \<Rightarrow> True"
      by (cases "entry_value (snd x)") auto
  qed
qed

lemma kvv_kv_set_other: "k' \<noteq> k \<Longrightarrow> kvv (kv_set k x kv) k' = kvv kv k'"
  by (simp add: kvv_def kv_set_get_other)

lemma design_not_row: "\<not> strict_prefix (getViewKey ns v) (getDesignKey ns' v')"
  by (auto simp: strict_prefix_def prefix_def key_defs)

lemma rebuildView_rows:
  assumes "docs_no_rev (c_kv db)"
    and "strict_prefix (getViewKey (c_namespace db) v) k"
    and "kvv (c_kv (rebuildView v f sig db)) k = Some x"
  shows "\<exists>r. x = RowValue r \<and> row_doc r ''_rev'' = None"
proof -
  let ?ns = "c_namespace db"
  let ?kv1 = "rebuild_delete ?ns v (c_kv db)"
  let ?docs = "map (\<lambda>x. entry_value (snd x)) (kv_list ?kv1 (PrefixSelector (getDocPrefix ?ns)))"
  have ne: "k \<noteq> getDesignKey ?ns v" using assms(2) design_not_row by blast
  have "kvv (fst (rebuild_map ?ns v f (?kv1, c_mapCalls db))) k = Some x"
    using assms(3) ne by (simp add: rebuildView_def Let_def kvv_kv_set_other)
  then have "fold mutation_map (concat (map (doc_mutations ?ns v f) ?docs)) (kvv ?kv1) k = Some x"
    by (simp add: rebuild_map_kvv)
  from fold_mutation_cases [OF this] rebuild_delete_clears [OF assms(2)]
  have "KvSet k x \<in> set (concat (map (doc_mutations ?ns v f) ?docs))" by simp
  then obtain y where y: "y \<in> set ?docs" "KvSet k x \<in> set (doc_mutations ?ns v f y)" by auto
  then obtain doc where doc: "y = DocValue doc"
    by (cases y) (auto simp: doc_mutations_def)
  from y(1) obtain kk e where e: "(kk, e) \<in> set (kv_list ?kv1 (PrefixSelector (getDocPrefix ?ns)))"
      "entry_value e = y" by auto
  then have "kvv ?kv1 kk = Some (DocValue doc)"
    by (simp add: kv_list_mem kvv_def doc)
  then have "kvv (c_kv db) kk = Some (DocValue doc)" by (rule rebuild_delete_subset)
  then have norev: "doc ''_rev'' = None" using assms(1) by (auto simp: docs_no_rev_iff)
  have "k \<noteq> getViewRefKey ?ns v (document_id doc)" using assms(2) refkey_not_row by blast
  then obtain r where "(k, r) \<in> set (emit_rows f (getViewKey ?ns v) (document_id doc) doc)" "x = RowValue r"
    using y(2) by (auto simp: doc doc_mutations_def)
  then show ?thesis using emit_rows_key_shape(3) norev by fastforce
qed

subsection \<open>The rows of a query with documents\<close>

lemma query_map_loop_no_skip:
  "query_map_loop vp inc (Finite 0) n entries = map (query_row vp inc) entries"
  by (induction entries) simp_all

lemma docs_query_rows:
  assumes "map_of (c_views db) v = Some logic"
  shows "Cushion_query qr (docs_query v) db =
           Inr (MapRows (map (query_row (getViewKey (c_namespace db) v) True)
                  (kv_list (c_kv db) (PrefixSelector (getViewKey (c_namespace db) v)))))"
  using assms
  by (cases "vl_reduce logic")
     (simp_all add: Cushion_query_def docs_query_def ViewQuery_getParams_def ViewQuery_includeDocs_def
        ViewQuery_for_def getParams_shape_def Let_def kv_list_options_def number_truthy_def
        query_map_loop_no_skip)

lemma document_write_views:
  assumes cons: "views_consistent G db"
    and kv1: "\<And>k. k \<noteq> getDocumentKey (c_namespace db) docId \<Longrightarrow> kv_get kv1 k = kv_get (c_kv db) k"
    and refs1: "refs_name_rows kv1"
  shows "views_consistent (\<lambda>v. (G v)(docId := doc)) (updateViewsForDoc docId doc (db\<lparr> c_kv := kv1 \<rparr>))"
proof -
  let ?db1 = "db\<lparr> c_kv := kv1 \<rparr>"
  let ?db2 = "updateViewsForDoc docId doc ?db1"
  have dist: "distinct (map fst (c_views ?db1))" using cons by (simp add: views_consistent_def)
  have agree: "kvv kv1 k = kvv (c_kv db) k" if "key_kind k = ''view'' \<or> key_kind k = ''viewref''" for k
  proof -
    have "k \<noteq> getDocumentKey (c_namespace db) docId" using that by auto
    then show ?thesis using kv1 [of k] by (simp add: kvv_def)
  qed
  have pre: "\<forall>x \<in> set (c_views ?db1). view_ok (c_namespace ?db1) (fst x) (vl_map (snd x)) (G (fst x)) (kvv (c_kv ?db1))"
    using cons view_ok_agree [OF agree] by (simp add: views_consistent_def)
  have post: "\<forall>x \<in> set (c_views ?db1). view_ok (c_namespace ?db1) (fst x) (vl_map (snd x)) ((G (fst x))(docId := doc)) (kvv (c_kv ?db2))"
    using updateViewsForDoc_view_ok [OF dist pre] .
  have refs1': "refs_name_rows (c_kv ?db1)" using refs1 by simp
  note props = updateViewsForDoc_props [OF refs1', where docId = docId and doc = doc]
  show ?thesis
    unfolding views_consistent_def using props(1,2,3) post dist by simp
qed

lemma consistent_rows_docs:
  assumes cons: "views_consistent G db"
    and reg: "map_of (c_views db) v = Some logic"
    and g: "G v docId = Some d"
    and row: "row \<in> set (map (query_row (getViewKey (c_namespace db) v) True)
                  (kv_list (c_kv db) (PrefixSelector (getViewKey (c_namespace db) v))))"
    and id: "mr_id row = KString docId"
  shows "mr_doc row = Some d"
proof -
  let ?vp = "getViewKey (c_namespace db) v"
  from row obtain k e where ke: "(k, e) \<in> set (kv_list (c_kv db) (PrefixSelector ?vp))"
      "row = query_row ?vp True (k, e)" by auto
  then have get: "kv_get (c_kv db) k = Some e" and pre: "strict_prefix ?vp k"
    by (simp_all add: kv_list_mem)
  have last: "last k = KString docId"
    using id ke(2) by (cases "entry_value e") (simp_all add: query_row_def)
  have "(v, logic) \<in> set (c_views db)" using reg by (rule map_of_SomeD)
  then have "view_ok (c_namespace db) v (vl_map logic) (G v) (kvv (c_kv db))"
    using cons by (fastforce simp: views_consistent_def)
  then have "kvv (c_kv db) k = expected_row ?vp (vl_map logic) (G v) k"
    using pre by (simp add: view_ok_def)
  then have "Some (entry_value e) = map_option RowValue (map_of (rev (emit_rows (vl_map logic) ?vp docId d)) k)"
    using get by (simp add: kvv_def expected_row_def last g)
  then obtain r where r: "entry_value e = RowValue r"
      "map_of (rev (emit_rows (vl_map logic) ?vp docId d)) k = Some r"
    by (cases "map_of (rev (emit_rows (vl_map logic) ?vp docId d)) k") auto
  from r(2) have "(k, r) \<in> set (emit_rows (vl_map logic) ?vp docId d)"
    using map_of_SomeD by fastforce
  then have "row_doc r = d" by (rule emit_rows_key_shape(3))
  then show ?thesis using ke(2) r(1) by (simp add: query_row_def)
qed

lemma insert_views:
  assumes cons: "views_consistent G db"
    and norev: "doc ''_rev'' = None"
    and fresh: "kv_get (c_kv db) (getDocumentKey (c_namespace db) (insert_id doc uuid)) = None"
  shows "views_consistent
           (\<lambda>v. (G v)(insert_id doc uuid :=
              Some (doc(''_id'' \<mapsto> JString (insert_id doc uuid), ''_rev'' \<mapsto> JStamp (Suc (kv_clock (c_kv db)))))))
           (snd (Cushion_insert uuid doc db))"
proof -
  let ?id = "insert_id doc uuid"
  let ?k = "getDocumentKey (c_namespace db) ?id"
  let ?v = "Suc (kv_clock (c_kv db))"
  let ?init = "doc(''_id'' \<mapsto> JString ?id)"
  let ?kv1 = "\<lparr> kv_entries = DAList.update ?k \<lparr> entry_value = DocValue ?init, entry_versionstamp = ?v \<rparr> (kv_entries (c_kv db)),
           kv_clock = ?v \<rparr>"
  have ins: "snd (Cushion_insert uuid doc db) =
      updateViewsForDoc ?id (Some (?init(''_rev'' \<mapsto> JStamp ?v))) (db\<lparr> c_kv := ?kv1 \<rparr>)"
    using norev fresh by (simp add: Cushion_insert_def Let_def commit_checked_set)
  have refs: "refs_name_rows (c_kv db)" using cons by (simp add: views_consistent_def)
  show ?thesis
    unfolding ins
  proof (rule document_write_views [OF cons])
    show "kv_get ?kv1 k = kv_get (c_kv db) k" if "k \<noteq> ?k" for k
      using that by (simp add: kv_get_def DAList.lookup_update)
    show "refs_name_rows ?kv1"
      using refs_name_rows_set [OF refs, of "DocValue ?init"] by (simp add: names_rows_def)
  qed
qed

lemma replace_views:
  assumes cons: "views_consistent G db"
    and cur: "map_option entry_versionstamp (kv_get (c_kv db) (getDocumentKey (c_namespace db) docId)) = Some rev'"
  shows "views_consistent
           (\<lambda>v. (G v)(docId :=
              Some ((doc(''_rev'' := None))(''_id'' \<mapsto> JString docId, ''_rev'' \<mapsto> JStamp (Suc (kv_clock (c_kv db)))))))
           (snd (Cushion_replace docId rev' doc db))"
proof -
  let ?k = "getDocumentKey (c_namespace db) docId"
  let ?v = "Suc (kv_clock (c_kv db))"
  let ?u = "(doc(''_rev'' := None))(''_id'' \<mapsto> JString docId)"
  let ?kv1 = "\<lparr> kv_entries = DAList.update ?k \<lparr> entry_value = DocValue ?u, entry_versionstamp = ?v \<rparr> (kv_entries (c_kv db)),
           kv_clock = ?v \<rparr>"
  have rep: "snd (Cushion_replace docId rev' doc db) =
      updateViewsForDoc docId (Some (?u(''_rev'' \<mapsto> JStamp ?v))) (db\<lparr> c_kv := ?kv1 \<rparr>)"
    using cur by (simp add: Cushion_replace_def Let_def commit_checked_set)
  have refs: "refs_name_rows (c_kv db)" using cons by (simp add: views_consistent_def)
  show ?thesis
    unfolding rep
  proof (rule document_write_views [OF cons])
    show "kv_get ?kv1 k = kv_get (c_kv db) k" if "k \<noteq> ?k" for k
      using that by (simp add: kv_get_def DAList.lookup_update)
    show "refs_name_rows ?kv1"
      using refs_name_rows_set [OF refs, of "DocValue ?u"] by (simp add: names_rows_def)
  qed
qed

lemma rebuildView_query_rows:
  assumes "docs_no_rev (c_kv db)" and reg: "map_of (c_views db) v = Some logic"
    and row: "row \<in> set (map (query_row (getViewKey (c_namespace db) v) True)
                  (kv_list (c_kv (rebuildView v f sig db)) (PrefixSelector (getViewKey (c_namespace db) v))))"
  shows "\<exists>d. mr_doc row = Some d \<and> d ''_rev'' = None"
proof -
  let ?vp = "getViewKey (c_namespace db) v"
  let ?db' = "rebuildView v f sig db"
  from row obtain k e where ke: "(k, e) \<in> set (kv_list (c_kv ?db') (PrefixSelector ?vp))"
      "row = query_row ?vp True (k, e)" by auto
  then have get: "kvv (c_kv ?db') k = Some (entry_value e)" and pre: "strict_prefix ?vp k"
    by (simp_all add: kv_list_mem kvv_def)
  from rebuildView_rows [OF assms(1) pre get]
  obtain r where "entry_value e = RowValue r" "row_doc r ''_rev'' = None" by blast
  then show ?thesis using ke(2) by (simp add: query_row_def)
qed

subsection \<open>The invariants hold after defining views on an empty store and any operations\<close>

lemma consistent_views: "consistent db \<Longrightarrow> views_consistent (\<lambda>v i. Cushion_get i db) db"
  by (simp add: consistent_def views_consistent_def)

lemma updateViewForDoc_no_rev:
  assumes "docs_no_rev (c_kv db)"
  shows "docs_no_rev (c_kv (updateViewForDoc v mapper docId doc db))"
  unfolding docs_no_rev_iff
proof (intro allI impI)
  fix k d
  let ?ms = "update_mutations (c_namespace db) v mapper docId doc (c_kv db)"
  assume "kvv (c_kv (updateViewForDoc v mapper docId doc db)) k = Some (DocValue d)"
  then have "fold mutation_map ?ms (kvv (c_kv db)) k = Some (DocValue d)"
    by (simp add: updateViewForDoc_eq kvv_commit_unchecked)
  then have "kvv (c_kv db) k = Some (DocValue d) \<or> KvSet k (DocValue d) \<in> set ?ms"
    by (rule fold_mutation_cases)
  moreover have "KvSet k (DocValue d) \<notin> set ?ms"
    by (cases doc) (auto simp: update_mutations_def)
  ultimately show "d ''_rev'' = None" using assms by (auto simp: docs_no_rev_iff)
qed

lemma updateViews_loop_no_rev:
  "docs_no_rev (c_kv db) \<Longrightarrow> docs_no_rev (c_kv (updateViews_loop vs docId doc db))"
  by (induction vs arbitrary: db) (simp_all add: updateViewForDoc_no_rev)

lemma updateViewsForDoc_no_rev:
  "docs_no_rev (c_kv db) \<Longrightarrow> docs_no_rev (c_kv (updateViewsForDoc docId doc db))"
  by (simp add: updateViewsForDoc_def updateViews_loop_no_rev)

lemma set_document_no_rev:
  assumes "docs_no_rev kv" "d ''_rev'' = None"
  shows "docs_no_rev \<lparr> kv_entries = DAList.update k \<lparr> entry_value = DocValue d, entry_versionstamp = v \<rparr> (kv_entries kv),
                       kv_clock = c \<rparr>"
  using assms unfolding docs_no_rev_iff
  by (auto simp: kvv_def kv_get_def DAList.lookup_update split: if_splits)

lemma delete_no_rev:
  assumes "docs_no_rev kv"
  shows "docs_no_rev \<lparr> kv_entries = DAList.delete k (kv_entries kv), kv_clock = c \<rparr>"
  using assms unfolding docs_no_rev_iff
  by (auto simp: kvv_def kv_get_def split: if_splits)

lemma run_operation_no_rev:
  assumes "docs_no_rev (c_kv db)"
  shows "docs_no_rev (c_kv (run_operation db op))"
proof (cases op)
  case (Insert uuid doc)
  show ?thesis
    unfolding Insert
    using assms set_document_no_rev [OF assms, of "doc(''_id'' \<mapsto> JString (insert_id doc uuid))"]
    by (auto simp: Cushion_insert_def Let_def commit_checked_set updateViewsForDoc_no_rev)
next
  case (Replace docId rev' doc)
  show ?thesis
    unfolding Replace
    using assms set_document_no_rev [OF assms, of "(doc(''_rev'' := None))(''_id'' \<mapsto> JString docId)"]
    by (auto simp: Cushion_replace_def Let_def commit_checked_set updateViewsForDoc_no_rev)
next
  case (Remove docId rev')
  show ?thesis
    unfolding Remove
    using assms delete_no_rev [OF assms]
    by (auto simp: Cushion_remove_def Let_def commit_checked_delete updateViewsForDoc_no_rev)
qed

lemma run_operations_no_rev:
  "docs_no_rev (c_kv db) \<Longrightarrow> docs_no_rev (c_kv (foldl run_operation db ops))"
  by (induction ops arbitrary: db) (simp_all add: run_operation_no_rev)

lemma only_design_no_rev: "only_design kv \<Longrightarrow> docs_no_rev kv"
  unfolding docs_no_rev_iff by (fastforce simp: only_design_def kvv_def)

lemma reachable_invariants:
  assumes "db = foldl run_operation (define_views digest views (Cushion_open ns kv_empty)) ops"
  shows "views_consistent (\<lambda>v i. Cushion_get i db) db" and "docs_no_rev (c_kv db)"
proof -
  let ?start = "define_views digest views (Cushion_open ns kv_empty)"
  have od: "only_design (c_kv ?start)" and dist: "distinct (map fst (c_views ?start))"
    using define_views_props(1,2) [of "Cushion_open ns kv_empty" digest views] open_empty(1,2) [of ns]
    by simp_all
  have "consistent ?start" using od dist by (rule only_design_consistent)
  then have "consistent db" unfolding assms by (rule run_operations_consistent)
  then show "views_consistent (\<lambda>v i. Cushion_get i db) db" by (rule consistent_views)
  show "docs_no_rev (c_kv db)"
    unfolding assms using only_design_no_rev [OF od] by (rule run_operations_no_rev)
qed

subsection \<open>The test database: after insert, after replace, after a rebuild\<close>

lemmas alist_eval = DAList.update.rep_eq DAList.delete.rep_eq DAList.empty.rep_eq

lemma test_db_alice_rows:
  "kv_list (c_kv test_db_alice) (PrefixSelector (getViewKey ''test'' ''by-name'')) =
     [([KString ''test'', KString ''view'', KString ''by-name'', KString ''Alice'', KString ''alice''],
       \<lparr> entry_value = RowValue \<lparr> row_value = JNull, row_doc = alice(''_rev'' \<mapsto> JStamp 2) \<rparr>,
         entry_versionstamp = 3 \<rparr>)]"
  by (simp add: kv_list_def test_db_alice_eq alist_eval key_defs sort_entries_def strict_prefix_def)

lemma test_db_rebuilt_rows:
  "kv_list (c_kv test_db_rebuilt) (PrefixSelector (getViewKey ''test'' ''by-name'')) =
     [([KString ''test'', KString ''view'', KString ''by-name'', KString ''Alice'', KString ''alice''],
       \<lparr> entry_value = RowValue \<lparr> row_value = JNull, row_doc = alice \<rparr>,
         entry_versionstamp = 5 \<rparr>)]"
proof -
  have l1: "kv_list (c_kv test_db_alice) (PrefixSelector (getViewRefPrefix ''test'' ''by-name'')) =
     [([KString ''test'', KString ''viewref'', KString ''by-name'', KString ''alice''],
       \<lparr> entry_value = RefValue [[KString ''test'', KString ''view'', KString ''by-name'', KString ''Alice'', KString ''alice'']],
         entry_versionstamp = 3 \<rparr>)]"
    by (simp add: kv_list_def test_db_alice_eq alist_eval key_defs sort_entries_def strict_prefix_def)
  have cleared: "rebuild_delete ''test'' ''by-name'' (c_kv test_db_alice) =
      \<lparr> kv_entries = DAList.delete [KString ''test'', KString ''viewref'', KString ''by-name'', KString ''alice'']
          (DAList.delete [KString ''test'', KString ''view'', KString ''by-name'', KString ''Alice'', KString ''alice'']
             (kv_entries (c_kv test_db_alice))), kv_clock = 4 \<rparr>"
    unfolding rebuild_delete_def delete_prefix_def
    by (simp add: test_db_alice_rows l1 BATCH_SIZE_def commit_rest_def atomic_delete_def atomic_def
        commit_unchecked)
       (simp add: test_db_alice_eq)
  let ?cleared = "\<lparr> kv_entries = DAList.delete [KString ''test'', KString ''viewref'', KString ''by-name'', KString ''alice'']
          (DAList.delete [KString ''test'', KString ''view'', KString ''by-name'', KString ''Alice'', KString ''alice'']
             (kv_entries (c_kv test_db_alice))), kv_clock = 4 \<rparr>"
  have docs: "kv_list ?cleared (PrefixSelector (getDocPrefix ''test'')) =
     [([KString ''test'', KString ''doc'', KString ''alice''],
       \<lparr> entry_value = DocValue alice, entry_versionstamp = 2 \<rparr>)]"
    by (simp add: kv_list_def test_db_alice_eq alist_eval key_defs sort_entries_def strict_prefix_def)
  have emits: "fn_emits by_name alice = [(EmitPart (KString ''Alice''), JUndefined)]"
    by (simp add: by_name_def alice_def)
  have id: "document_id alice = ''alice''" by (simp add: document_id_def alice_def)
  have ns: "c_namespace test_db_alice = ''test''" by (simp add: test_db_alice_eq)
  have mapped: "fst (rebuild_map ''test'' ''by-name'' by_name (?cleared, c)) =
     \<lparr> kv_entries =
         DAList.update [KString ''test'', KString ''viewref'', KString ''by-name'', KString ''alice'']
           \<lparr> entry_value = RefValue [[KString ''test'', KString ''view'', KString ''by-name'', KString ''Alice'', KString ''alice'']],
             entry_versionstamp = 5 \<rparr>
        (DAList.update [KString ''test'', KString ''view'', KString ''by-name'', KString ''Alice'', KString ''alice'']
           \<lparr> entry_value = RowValue \<lparr> row_value = JNull, row_doc = alice \<rparr>, entry_versionstamp = 5 \<rparr>
           (kv_entries ?cleared)), kv_clock = 5 \<rparr>" for c
    by (simp add: rebuild_map_def docs Let_def emit_rows_def emit_row_def emits id nullish_to_null_def
        BATCH_SIZE_def commit_rest_def set_rows_eq atomic_set_def atomic_def commit_unchecked)
       (simp add: key_defs)
  show ?thesis
    unfolding test_db_rebuilt_def rebuildView_def Let_def ns cleared mapped
    by (simp add: kv_set_def atomic_set_def atomic_def commit_unchecked
        kv_list_def test_db_alice_eq alist_eval key_defs sort_entries_def strict_prefix_def)
qed

lemma test_db_only_design: "only_design (c_kv test_db)"
  by (auto simp: only_design_def test_db_eq kv_get_def DAList.lookup_update key_defs key_kind_def
      split: if_splits)

lemma test_db_views: "views_consistent (\<lambda>v i. None) test_db"
proof -
  have "consistent test_db"
    by (rule only_design_consistent [OF test_db_only_design]) (simp add: test_db_eq)
  then have "views_consistent (\<lambda>v i. Cushion_get i test_db) test_db" by (rule consistent_views)
  moreover have "Cushion_get i test_db = None" for i
    using test_db_no_docs [of i] by (simp add: Cushion_get_def test_db_eq)
  ultimately show ?thesis by simp
qed

lemma test_db_no_rev: "docs_no_rev (c_kv test_db)"
  by (simp add: docs_no_rev_def test_db_eq alist_eval key_defs)

lemma test_db_alice_no_rev: "docs_no_rev (c_kv test_db_alice)"
  by (simp add: docs_no_rev_def test_db_alice_eq alist_eval key_defs alice_def)

lemma alicia_emits:
  "fn_emits by_name (alicia(''_id'' \<mapsto> JString i, ''_rev'' \<mapsto> JStamp v)) = [(EmitPart (KString ''Alicia''), JUndefined)]"
  by (simp add: by_name_def alicia_def)

lemma test_db_alicia_keys:
  "map fst (kv_list (c_kv test_db_alicia) (PrefixSelector (getViewKey ''test'' ''by-name''))) =
     [[KString ''test'', KString ''view'', KString ''by-name'', KString ''Alicia'', KString ''alice'']]"
  unfolding test_db_alicia_def
  apply (simp add: Cushion_replace_def  test_db_alice_eq Let_def commit_checked_set kv_get_def
      DAList.lookup_update key_defs updateViewsForDoc_def updateViewForDoc_eq commit_unchecked
      update_mutations_def existing_keys_def
      emit_rows_def emit_row_def alicia_emits nullish_to_null_def numeral_2_eq_2 numeral_3_eq_3)
  apply (simp add: kv_list_def alist_eval key_defs sort_entries_def strict_prefix_def)
  done

lemma single_row:
  assumes "map fst entries = [k]"
  shows "\<exists>e. map (query_row vp True) entries = [query_row vp True (k, e)]"
  using assms by (cases entries) auto

lemma query_row_id: "mr_id (query_row vp inc (k, e)) = last k"
  by (cases "entry_value e") (simp_all add: query_row_def)

text \<open>
  Claim C10. Let the views be consistent with some snapshots, let no stored document hold
  \<^verbatim>\<open>_rev\<close>, and let \<open>v\<close> be a view of the registry (all three hold in every state reached
  from an empty store by defining views and then calling \<^verbatim>\<open>insert\<close>, \<^verbatim>\<open>replace\<close> and \<^verbatim>\<open>remove\<close>). A query of \<open>v\<close>
  with \<^verbatim>\<open>includeDocs\<close>, after a successful \<^verbatim>\<open>insert\<close> or \<^verbatim>\<open>replace\<close> of a document, returns in
  every row of that document the document with its \<^verbatim>\<open>_id\<close> and with \<^verbatim>\<open>_rev\<close> equal to the
  new revision. The same query after a rebuild of \<open>v\<close> returns in every row a document
  without \<^verbatim>\<open>_rev\<close>.
\<close>

theorem snapshot_revisions:
  assumes "views_consistent G db" and "docs_no_rev (c_kv db)"
    and "map_of (c_views db) v = Some logic"
  shows
    "(doc ''_rev'' = None \<and> kv_get (c_kv db) (getDocumentKey (c_namespace db) (insert_id doc uuid)) = None \<longrightarrow>
        (\<exists>rows. Cushion_query qr (docs_query v) (snd (Cushion_insert uuid doc db)) = Inr (MapRows rows) \<and>
           (\<forall>row \<in> set rows. mr_id row = KString (insert_id doc uuid) \<longrightarrow>
              mr_doc row = Some (doc(''_id'' \<mapsto> JString (insert_id doc uuid),
                                     ''_rev'' \<mapsto> JStamp (Suc (kv_clock (c_kv db)))))))) \<and>
     (map_option entry_versionstamp (kv_get (c_kv db) (getDocumentKey (c_namespace db) docId)) = Some rev' \<longrightarrow>
        (\<exists>rows. Cushion_query qr (docs_query v) (snd (Cushion_replace docId rev' doc' db)) = Inr (MapRows rows) \<and>
           (\<forall>row \<in> set rows. mr_id row = KString docId \<longrightarrow>
              mr_doc row = Some ((doc'(''_rev'' := None))(''_id'' \<mapsto> JString docId,
                                     ''_rev'' \<mapsto> JStamp (Suc (kv_clock (c_kv db)))))))) \<and>
     (\<exists>rows. Cushion_query qr (docs_query v) (rebuildView v f sig db) = Inr (MapRows rows) \<and>
           (\<forall>row \<in> set rows. \<exists>d. mr_doc row = Some d \<and> d ''_rev'' = None))"
proof (intro conjI impI)
  assume a: "doc ''_rev'' = None \<and> kv_get (c_kv db) (getDocumentKey (c_namespace db) (insert_id doc uuid)) = None"
  let ?db' = "snd (Cushion_insert uuid doc db)"
  let ?d = "doc(''_id'' \<mapsto> JString (insert_id doc uuid), ''_rev'' \<mapsto> JStamp (Suc (kv_clock (c_kv db))))"
  let ?G = "\<lambda>v. (G v)(insert_id doc uuid := Some ?d)"
  have refs: "refs_name_rows (c_kv db)" using assms(1) by (simp add: views_consistent_def)
  have cons': "views_consistent ?G ?db'" using insert_views [OF assms(1)] a by simp
  have ns: "c_namespace ?db' = c_namespace db"
    using run_operation_fields(1) [OF refs, of "Insert uuid doc"] by simp
  have reg': "map_of (c_views ?db') v = Some logic"
    using run_operation_fields(2) [OF refs, of "Insert uuid doc"] assms(3) by simp
  show "\<exists>rows. Cushion_query qr (docs_query v) ?db' = Inr (MapRows rows) \<and>
           (\<forall>row \<in> set rows. mr_id row = KString (insert_id doc uuid) \<longrightarrow> mr_doc row = Some ?d)"
    using docs_query_rows [OF reg', of qr] consistent_rows_docs [OF cons' reg', of "insert_id doc uuid" ?d]
    by auto
next
  assume a: "map_option entry_versionstamp (kv_get (c_kv db) (getDocumentKey (c_namespace db) docId)) = Some rev'"
  let ?db' = "snd (Cushion_replace docId rev' doc' db)"
  let ?d = "(doc'(''_rev'' := None))(''_id'' \<mapsto> JString docId, ''_rev'' \<mapsto> JStamp (Suc (kv_clock (c_kv db))))"
  let ?G = "\<lambda>v. (G v)(docId := Some ?d)"
  have refs: "refs_name_rows (c_kv db)" using assms(1) by (simp add: views_consistent_def)
  have cons': "views_consistent ?G ?db'" using replace_views [OF assms(1) a] by simp
  have ns: "c_namespace ?db' = c_namespace db"
    using run_operation_fields(1) [OF refs, of "Replace docId rev' doc'"] by simp
  have reg': "map_of (c_views ?db') v = Some logic"
    using run_operation_fields(2) [OF refs, of "Replace docId rev' doc'"] assms(3) by simp
  show "\<exists>rows. Cushion_query qr (docs_query v) ?db' = Inr (MapRows rows) \<and>
           (\<forall>row \<in> set rows. mr_id row = KString docId \<longrightarrow> mr_doc row = Some ?d)"
    using docs_query_rows [OF reg', of qr] consistent_rows_docs [OF cons' reg', of docId ?d]
    by auto
next
  let ?db' = "rebuildView v f sig db"
  have reg': "map_of (c_views ?db') v = Some logic"
    using assms(3) by (simp add: rebuildView_fields)
  show "\<exists>rows. Cushion_query qr (docs_query v) ?db' = Inr (MapRows rows) \<and>
           (\<forall>row \<in> set rows. \<exists>d. mr_doc row = Some d \<and> d ''_rev'' = None)"
    using docs_query_rows [OF reg', of qr] rebuildView_query_rows [OF assms(2,3), of _ f sig]
    by (auto simp: rebuildView_fields)
qed

text \<open>
  The test database: the row of \<^verbatim>\<open>alice\<close> holds \<^verbatim>\<open>_rev\<close> 2 after the insert and \<^verbatim>\<open>_rev\<close> 4
  after the replace, and holds no \<^verbatim>\<open>_rev\<close> after a rebuild of the view.
\<close>

theorem snapshot_revisions_witness:
  "(\<exists>row. Cushion_query (\<lambda>entries reduceFn params. ()) (docs_query ''by-name'') test_db_alice = Inr (MapRows [row]) \<and>
       mr_id row = KString ''alice'' \<and>
       mr_doc row = Some (alice(''_rev'' \<mapsto> JStamp 2))) \<and>
   (\<exists>row. Cushion_query (\<lambda>entries reduceFn params. ()) (docs_query ''by-name'') test_db_alicia = Inr (MapRows [row]) \<and>
       mr_id row = KString ''alice'' \<and>
       mr_doc row = Some (alicia(''_id'' \<mapsto> JString ''alice'', ''_rev'' \<mapsto> JStamp 4))) \<and>
   (\<exists>row d. Cushion_query (\<lambda>entries reduceFn params. ()) (docs_query ''by-name'') test_db_rebuilt = Inr (MapRows [row]) \<and>
       mr_id row = KString ''alice'' \<and> mr_doc row = Some d \<and> d ''_rev'' = None)"
proof -
  let ?qr = "\<lambda>entries reduceFn params. ()"
  let ?logic = "\<lparr> vl_map = by_name, vl_reduce = None \<rparr>"
  let ?vp = "getViewKey ''test'' ''by-name''"
  let ?k = "[KString ''test'', KString ''view'', KString ''by-name'', KString ''Alice'', KString ''alice'']"
  let ?k' = "[KString ''test'', KString ''view'', KString ''by-name'', KString ''Alicia'', KString ''alice'']"
  let ?G = "\<lambda>v. ((\<lambda>i. None)(''alice'' \<mapsto> alice(''_rev'' \<mapsto> JStamp 2)))"
  have reg0: "map_of (c_views test_db) ''by-name'' = Some ?logic" by (simp add: test_db_eq)
  have reg1: "map_of (c_views test_db_alice) ''by-name'' = Some ?logic" by (simp add: test_db_alice_eq)
  have ns0: "c_namespace test_db = ''test''" by (simp add: test_db_eq)
  have ns1: "c_namespace test_db_alice = ''test''" by (simp add: test_db_alice_eq)
  have clock0: "Suc (kv_clock (c_kv test_db)) = 2" by (simp add: test_db_eq)
  have clock1: "Suc (kv_clock (c_kv test_db_alice)) = 4" by (simp add: test_db_alice_eq)
  have cur: "map_option entry_versionstamp (kv_get (c_kv test_db_alice) (getDocumentKey (c_namespace test_db_alice) ''alice'')) = Some 2"
    by (simp add: test_db_alice_eq kv_get_def DAList.lookup_update key_defs)
  have views1: "views_consistent ?G test_db_alice"
    using insert_views [OF test_db_views, of alice "''6f1c''"] test_db_no_docs [of "''alice''"]
    by (simp add: alice_facts ns0 clock0 test_db_alice_def)
  have reg2: "map_of (c_views test_db_alicia) ''by-name'' = Some ?logic"
    using run_operation_fields(2) [OF test_db_alice_refs, of "Replace ''alice'' 2 alicia"] reg1
    by (simp add: test_db_alicia_def)
  have ns2: "c_namespace test_db_alicia = ''test''"
    using run_operation_fields(1) [OF test_db_alice_refs, of "Replace ''alice'' 2 alicia"] ns1
    by (simp add: test_db_alicia_def)
  have reg3: "map_of (c_views test_db_rebuilt) ''by-name'' = Some ?logic"
    using reg1 by (simp add: test_db_rebuilt_def rebuildView_fields)
  have ns3: "c_namespace test_db_rebuilt = ''test''"
    using ns1 by (simp add: test_db_rebuilt_def rebuildView_fields)
  have q1: "\<exists>e. Cushion_query ?qr (docs_query ''by-name'') test_db_alice = Inr (MapRows [query_row ?vp True (?k, e)])"
    unfolding docs_query_rows [OF reg1] ns1 test_db_alice_rows by simp blast
  have q2: "\<exists>e. Cushion_query ?qr (docs_query ''by-name'') test_db_alicia = Inr (MapRows [query_row ?vp True (?k', e)])"
    unfolding docs_query_rows [OF reg2] ns2 using single_row [OF test_db_alicia_keys, of ?vp] by simp
  have q3: "\<exists>e. Cushion_query ?qr (docs_query ''by-name'') test_db_rebuilt = Inr (MapRows [query_row ?vp True (?k, e)])"
    unfolding docs_query_rows [OF reg3] ns3 test_db_rebuilt_rows by simp blast
  note at_insert = snapshot_revisions [OF test_db_views test_db_no_rev reg0,
      where doc = alice and uuid = "''6f1c''" and qr = ?qr, THEN conjunct1,
      unfolded alice_facts ns0 clock0 test_db_alice_def [symmetric]]
  note at_alice = snapshot_revisions [OF views1 test_db_alice_no_rev reg1,
      where docId = "''alice''" and rev' = 2 and doc' = alicia and qr = ?qr and f = by_name
        and sig = "fn_text by_name",
      unfolded clock1 test_db_alicia_def [symmetric] test_db_rebuilt_def [symmetric]]
  have norev: "alicia(''_rev'' := None) = alicia" by (rule ext) (simp add: alicia_def)
  have 1: "\<exists>row. Cushion_query ?qr (docs_query ''by-name'') test_db_alice = Inr (MapRows [row]) \<and>
       mr_id row = KString ''alice'' \<and> mr_doc row = Some (alice(''_rev'' \<mapsto> JStamp 2))"
    using at_insert q1 test_db_no_docs [of "''alice''"] by (auto simp: query_row_id alice_facts)
  have 2: "\<exists>row. Cushion_query ?qr (docs_query ''by-name'') test_db_alicia = Inr (MapRows [row]) \<and>
       mr_id row = KString ''alice'' \<and>
       mr_doc row = Some (alicia(''_id'' \<mapsto> JString ''alice'', ''_rev'' \<mapsto> JStamp 4))"
    using at_alice [THEN conjunct2, THEN conjunct1] q2 cur by (auto simp: query_row_id norev)
  have 3: "\<exists>row d. Cushion_query ?qr (docs_query ''by-name'') test_db_rebuilt = Inr (MapRows [row]) \<and>
       mr_id row = KString ''alice'' \<and> mr_doc row = Some d \<and> d ''_rev'' = None"
    using at_alice [THEN conjunct2, THEN conjunct2] q3 by (auto simp: query_row_id)
  show ?thesis using 1 2 3 by blast
qed

section \<open>Views after defining them, insert, replace and remove\<close>

subsection \<open>The loop of a rebuild over the documents\<close>

lemma distinct_insert_entry:
  "distinct (map fst (insert_entry x ys)) \<longleftrightarrow> fst x \<notin> fst ` set ys \<and> distinct (map fst ys)"
  by (induction ys) auto

lemma distinct_sort_entries:
  "distinct (map fst xs) \<Longrightarrow> distinct (map fst (sort_entries xs))"
  unfolding sort_entries_def
  by (induction xs) (auto simp: distinct_insert_entry set_insert_entry sort_entries_def [symmetric])

lemma distinct_kv_list: "distinct (map fst (kv_list kv sel))"
proof -
  have "distinct (map fst (DAList.impl_of (kv_entries kv)))"
    using DAList.impl_of [of "kv_entries kv"] by simp
  then have "distinct (map fst (filter (\<lambda>x. selects sel (fst x)) (DAList.impl_of (kv_entries kv))))"
    by (rule distinct_map_filter)
  then show ?thesis unfolding kv_list_def by (rule distinct_sort_entries)
qed

lemma fold_mutation_other:
  "k \<notin> mutation_key ` set ms \<Longrightarrow> fold mutation_map ms m k = m k"
proof (induction ms arbitrary: m)
  case Nil
  then show ?case by simp
next
  case (Cons mu ms)
  then have "fold mutation_map ms (mutation_map mu m) k = mutation_map mu m k" by simp
  moreover have "mutation_map mu m k = m k" using Cons.prems by (cases mu) auto
  ultimately show ?case by simp
qed

lemma doc_mutations_keys:
  assumes "mu \<in> set (doc_mutations ns v f (DocValue d))"
  shows "(strict_prefix (getViewKey ns v) (mutation_key mu) \<and> last (mutation_key mu) = KString (document_id d)) \<or>
         mutation_key mu = getViewRefKey ns v (document_id d)"
  using assms emit_rows_key_shape(1,2) [of _ _ f "getViewKey ns v" "document_id d" d]
  by (auto simp: doc_mutations_def)

lemma refkey_inject: "getViewRefKey ns v i = getViewRefKey ns v' i' \<longleftrightarrow> v = v' \<and> i = i'"
  by (auto simp: key_defs)

lemma doc_mutations_not_doc [simp]: "doc_mutations ns v f (RowValue r) = []"
  "doc_mutations ns v f (RefValue ks) = []" "doc_mutations ns v f (DesignValue s) = []"
  by (simp_all add: doc_mutations_def)

lemma fold_docs_untouched:
  assumes no: "\<forall>x \<in> set ds. \<forall>d. x = DocValue d \<longrightarrow> document_id d \<noteq> i"
    and k: "(strict_prefix (getViewKey ns v) k \<and> last k = KString i) \<or> k = getViewRefKey ns v i"
  shows "fold mutation_map (concat (map (doc_mutations ns v f) ds)) m k = m k"
proof (rule fold_mutation_other, rule notI)
  assume "k \<in> mutation_key ` set (concat (map (doc_mutations ns v f) ds))"
  then obtain x mu where x: "x \<in> set ds" and mu: "mu \<in> set (doc_mutations ns v f x)"
    and key: "mutation_key mu = k" by auto
  from mu obtain d where d: "x = DocValue d" by (cases x) auto
  have ne: "document_id d \<noteq> i" using no x d by blast
  from doc_mutations_keys [OF mu [unfolded d]] key k ne refkey_not_row [of ns v ns v]
  show False by (auto simp: refkey_inject)
qed

lemma fold_docs_frame:
  assumes "\<not> strict_prefix (getViewKey ns v) k" "\<forall>i. k \<noteq> getViewRefKey ns v i"
  shows "fold mutation_map (concat (map (doc_mutations ns v f) ds)) m k = m k"
proof (rule fold_mutation_other, rule notI)
  assume "k \<in> mutation_key ` set (concat (map (doc_mutations ns v f) ds))"
  then obtain x mu where x: "x \<in> set ds" and mu: "mu \<in> set (doc_mutations ns v f x)"
    and key: "mutation_key mu = k" by auto
  from mu obtain d where d: "x = DocValue d" by (cases x) auto
  from doc_mutations_keys [OF mu [unfolded d]] key assms show False by auto
qed

lemma fold_docs_no_id:
  assumes "strict_prefix (getViewKey ns v) k" "\<forall>i. last k \<noteq> KString i"
  shows "fold mutation_map (concat (map (doc_mutations ns v f) ds)) m k = m k"
proof (rule fold_mutation_other, rule notI)
  assume "k \<in> mutation_key ` set (concat (map (doc_mutations ns v f) ds))"
  then obtain x mu where x: "x \<in> set ds" and mu: "mu \<in> set (doc_mutations ns v f x)"
    and key: "mutation_key mu = k" by auto
  from mu obtain d where d: "x = DocValue d" by (cases x) auto
  from doc_mutations_keys [OF mu [unfolded d]] key assms refkey_not_row [of ns v ns v]
  show False by auto
qed

lemma fold_docs_at:
  assumes pre: "\<forall>x \<in> set pre. \<forall>d'. x = DocValue d' \<longrightarrow> document_id d' \<noteq> document_id d"
    and post: "\<forall>x \<in> set post. \<forall>d'. x = DocValue d' \<longrightarrow> document_id d' \<noteq> document_id d"
  shows "strict_prefix (getViewKey ns v) k \<Longrightarrow> last k = KString (document_id d) \<Longrightarrow>
           fold mutation_map (concat (map (doc_mutations ns v f) (pre @ DocValue d # post))) m k =
             (case map_of (rev (emit_rows f (getViewKey ns v) (document_id d) d)) k of
                Some r \<Rightarrow> Some (RowValue r) | None \<Rightarrow> m k)"
    and "fold mutation_map (concat (map (doc_mutations ns v f) (pre @ DocValue d # post))) m
             (getViewRefKey ns v (document_id d)) =
           Some (RefValue (map fst (emit_rows f (getViewKey ns v) (document_id d) d)))"
proof -
  let ?rows = "emit_rows f (getViewKey ns v) (document_id d) d"
  let ?ref = "getViewRefKey ns v (document_id d)"
  let ?m1 = "fold mutation_map (concat (map (doc_mutations ns v f) pre)) m"
  let ?m2 = "fold mutation_map (doc_mutations ns v f (DocValue d)) ?m1"
  have split: "fold mutation_map (concat (map (doc_mutations ns v f) (pre @ DocValue d # post))) m =
      fold mutation_map (concat (map (doc_mutations ns v f) post)) ?m2"
    by simp
  have m2: "?m2 = (\<lambda>k. case map_of (rev ?rows) k of Some r \<Rightarrow> Some (RowValue r) | None \<Rightarrow> ?m1 k)
                    (?ref \<mapsto> RefValue (map fst ?rows))"
    by (simp add: doc_mutations_def fold_sets)
  {
    assume k: "strict_prefix (getViewKey ns v) k" "last k = KString (document_id d)"
    then have ne: "k \<noteq> ?ref" using refkey_not_row [of ns v ns v] by auto
    have "fold mutation_map (concat (map (doc_mutations ns v f) post)) ?m2 k = ?m2 k"
      using fold_docs_untouched [OF post, of ns v k] k by simp
    also have "\<dots> = (case map_of (rev ?rows) k of Some r \<Rightarrow> Some (RowValue r) | None \<Rightarrow> ?m1 k)"
      unfolding m2 using ne by simp
    also have "?m1 k = m k" using fold_docs_untouched [OF pre, of ns v k] k by simp
    finally show "fold mutation_map (concat (map (doc_mutations ns v f) (pre @ DocValue d # post))) m k =
             (case map_of (rev ?rows) k of Some r \<Rightarrow> Some (RowValue r) | None \<Rightarrow> m k)"
      unfolding split .
  }
  have "fold mutation_map (concat (map (doc_mutations ns v f) post)) ?m2 ?ref = ?m2 ?ref"
    using fold_docs_untouched [OF post, of ns v ?ref] by simp
  also have "\<dots> = Some (RefValue (map fst ?rows))" unfolding m2 by simp
  finally show "fold mutation_map (concat (map (doc_mutations ns v f) (pre @ DocValue d # post))) m ?ref =
           Some (RefValue (map fst ?rows))"
    unfolding split .
qed

lemma rebuild_delete_clears_ref:
  "kvv (rebuild_delete ns v kv) (getViewRefKey ns v i) = None"
proof (cases "kv_get kv (getViewRefKey ns v i)")
  case None
  then have "kvv kv (getViewRefKey ns v i) = None" by (simp add: kvv_def)
  then show ?thesis by (simp add: rebuild_delete_kvv)
next
  case (Some e)
  let ?k = "getViewRefKey ns v i"
  let ?st = "delete_prefix (getViewKey ns v) (kv, atomic, 0)"
  have "\<not> strict_prefix (getViewKey ns v) ?k" by (rule refkey_not_row)
  then have "kv_get (fst ?st) ?k = kv_get kv ?k"
    using delete_prefix_other [of "getViewKey ns v" ?k "(kv, atomic, 0)"] by (simp add: atomic_def)
  moreover have "strict_prefix (getViewRefPrefix ns v) ?k"
    by (simp add: strict_prefix_def getViewRefKey_def)
  ultimately have "(?k, e) \<in> set (kv_list (fst ?st) (PrefixSelector (getViewRefPrefix ns v)))"
    using Some by (simp add: kv_list_mem)
  then have "?k \<in> fst ` set (kv_list (fst ?st) (PrefixSelector (getViewRefPrefix ns v)))" by force
  then show ?thesis by (simp add: rebuild_delete_kvv)
qed

lemma dockey_inject: "getDocumentKey ns i = getDocumentKey ns' i' \<longleftrightarrow> ns = ns' \<and> i = i'"
  by (auto simp: key_defs)

lemma dockey_prefix: "strict_prefix (getDocPrefix ns) (getDocumentKey ns i)"
  by (simp add: strict_prefix_def getDocumentKey_def)

lemma document_id_eq: "d ''_id'' = Some (JString i) \<Longrightarrow> document_id d = i"
  by (simp add: document_id_def)

subsection \<open>A rebuild makes the view current and keeps the others\<close>

lemma rebuildView_kv:
  "c_kv (rebuildView v f sig db) =
     kv_set (getDesignKey (c_namespace db) v) (DesignValue \<lparr> vs_signature = sig, vs_state = Ready \<rparr>)
       (fst (rebuild_map (c_namespace db) v f (rebuild_delete (c_namespace db) v (c_kv db), c_mapCalls db)))"
  by (simp add: rebuildView_def Let_def)

lemma rebuildView_get_other:
  assumes "key_kind k \<noteq> ''view''" "key_kind k \<noteq> ''viewref''" "k \<noteq> getDesignKey (c_namespace db) v"
  shows "kv_get (c_kv (rebuildView v f sig db)) k = kv_get (c_kv db) k"
  unfolding rebuildView_kv
  using assms by (simp add: kv_set_get_other rebuild_map_other rebuild_delete_other)

lemma design_key_not_doc: "getDesignKey ns v \<noteq> getDocumentKey ns' i"
  by (simp add: key_defs)

lemma rebuildView_documents:
  "Cushion_get i (rebuildView v f sig db) = Cushion_get i db"
  "stored_document (rebuildView v f sig db) i = stored_document db i"
  using rebuildView_get_other [of "getDocumentKey (c_namespace db) i" db v f sig]
  by (simp_all add: Cushion_get_def stored_document_def rebuildView_fields design_key_not_doc [symmetric])

lemma rebuildView_docs_ok:
  assumes "docs_ok (c_namespace db) (c_kv db)"
  shows "docs_ok (c_namespace db) (c_kv (rebuildView v f sig db))"
  unfolding docs_ok_def
proof (intro allI impI)
  fix k e
  assume a: "kv_get (c_kv (rebuildView v f sig db)) k = Some e \<and> strict_prefix (getDocPrefix (c_namespace db)) k"
  then have kind: "key_kind k = ''doc''" using strict_prefix_doc_kind by blast
  then have "k \<noteq> getDesignKey (c_namespace db) v" by auto
  then have "kv_get (c_kv db) k = Some e"
    using rebuildView_get_other [of k db v f sig] kind a by simp
  then show "\<exists>docId d. k = getDocumentKey (c_namespace db) docId \<and> entry_value e = DocValue d \<and>
                   d ''_id'' = Some (JString docId)"
    using assms a unfolding docs_ok_def by blast
qed

lemma rebuildView_view_ok:
  assumes docs: "docs_ok (c_namespace db) (c_kv db)"
  shows "view_ok (c_namespace db) v f (stored_document db) (kvv (c_kv (rebuildView v f sig db)))"
proof -
  let ?ns = "c_namespace db"
  let ?vp = "getViewKey ?ns v"
  let ?cleared = "rebuild_delete ?ns v (c_kv db)"
  let ?L = "kv_list ?cleared (PrefixSelector (getDocPrefix ?ns))"
  let ?ds = "map (\<lambda>x. entry_value (snd x)) ?L"
  let ?mapped = "fst (rebuild_map ?ns v f (?cleared, c_mapCalls db))"
  let ?final = "c_kv (rebuildView v f sig db)"
  have mapped: "kvv ?mapped = fold mutation_map (concat (map (doc_mutations ?ns v f) ?ds)) (kvv ?cleared)"
    by (rule rebuild_map_kvv)
  have final: "kvv ?final k = kvv ?mapped k" if "k \<noteq> getDesignKey ?ns v" for k
    unfolding rebuildView_kv using that by (simp add: kvv_kv_set_other)
  have L: "(k, e) \<in> set ?L \<longleftrightarrow> kv_get (c_kv db) k = Some e \<and> strict_prefix (getDocPrefix ?ns) k" for k e
    using rebuild_delete_other [of k ?ns v "c_kv db"] strict_prefix_doc_kind [of ?ns k]
    by (auto simp: kv_list_mem)
  have entry: "document_id d = i \<and> k = getDocumentKey ?ns i"
    if "(k, e) \<in> set ?L" "entry_value e = DocValue d" "document_id d = i \<or> k = getDocumentKey ?ns i" for k e d i
  proof -
    from that(1) docs obtain j d' where j: "k = getDocumentKey ?ns j" "entry_value e = DocValue d'"
      "d' ''_id'' = Some (JString j)"
      unfolding L docs_ok_def by blast
    then have "document_id d = j" using that(2) by (simp add: document_id_eq)
    then show ?thesis using j(1) that(3) by (auto simp: dockey_inject)
  qed
  have absent: "\<forall>x \<in> set ?ds. \<forall>d. x = DocValue d \<longrightarrow> document_id d \<noteq> i" if "stored_document db i = None" for i
  proof (intro ballI allI impI notI)
    fix x d assume x: "x \<in> set ?ds" "x = DocValue d" "document_id d = i"
    then obtain k e where ke: "(k, e) \<in> set ?L" "entry_value e = DocValue d" by auto
    from entry [OF ke, where i = i] x(3) have "k = getDocumentKey ?ns i" by simp
    then have "kv_get (c_kv db) (getDocumentKey ?ns i) = Some e" using ke(1) unfolding L by simp
    then show False using that ke(2) by (simp add: stored_document_def)
  qed
  have present: "\<exists>pre post. ?ds = pre @ DocValue d # post \<and> document_id d = i \<and>
        (\<forall>x \<in> set pre. \<forall>d'. x = DocValue d' \<longrightarrow> document_id d' \<noteq> document_id d) \<and>
        (\<forall>x \<in> set post. \<forall>d'. x = DocValue d' \<longrightarrow> document_id d' \<noteq> document_id d)"
    if "stored_document db i = Some d" for i d
  proof -
    from that obtain e where e: "kv_get (c_kv db) (getDocumentKey ?ns i) = Some e" "entry_value e = DocValue d"
      by (auto simp: stored_document_def split: option.splits KvValue.splits)
    then have mem: "(getDocumentKey ?ns i, e) \<in> set ?L" unfolding L by (simp add: dockey_prefix)
    then obtain lpre lpost where sp: "?L = lpre @ (getDocumentKey ?ns i, e) # lpost"
      by (meson split_list)
    have id: "document_id d = i" using entry [OF mem e(2), where i = i] by simp
    have dist: "distinct (map fst ?L)" by (rule distinct_kv_list)
    have other: "document_id d' \<noteq> i"
      if "(k', e') \<in> set lpre \<union> set lpost" "entry_value e' = DocValue d'" for k' e' d'
    proof
      assume di: "document_id d' = i"
      have mem': "(k', e') \<in> set ?L" unfolding sp using that(1) by auto
      have "k' = getDocumentKey ?ns i" using entry [OF mem' that(2), where i = i] di by blast
      then have "getDocumentKey ?ns i \<in> fst ` (set lpre \<union> set lpost)" using that(1) by force
      then show False using dist unfolding sp by auto
    qed
    have "?ds = map (\<lambda>x. entry_value (snd x)) lpre @ DocValue d # map (\<lambda>x. entry_value (snd x)) lpost"
      unfolding sp using e(2) by simp
    moreover have "\<forall>x \<in> set (map (\<lambda>x. entry_value (snd x)) lpre). \<forall>d'. x = DocValue d' \<longrightarrow> document_id d' \<noteq> document_id d"
    proof (intro ballI allI impI)
      fix x d' assume "x \<in> set (map (\<lambda>x. entry_value (snd x)) lpre)" "x = DocValue d'"
      then obtain k' e' where "(k', e') \<in> set lpre" "entry_value e' = DocValue d'" by auto
      then show "document_id d' \<noteq> document_id d" unfolding id using other [of k' e' d'] by blast
    qed
    moreover have "\<forall>x \<in> set (map (\<lambda>x. entry_value (snd x)) lpost). \<forall>d'. x = DocValue d' \<longrightarrow> document_id d' \<noteq> document_id d"
    proof (intro ballI allI impI)
      fix x d' assume "x \<in> set (map (\<lambda>x. entry_value (snd x)) lpost)" "x = DocValue d'"
      then obtain k' e' where "(k', e') \<in> set lpost" "entry_value e' = DocValue d'" by auto
      then show "document_id d' \<noteq> document_id d" unfolding id using other [of k' e' d'] by blast
    qed
    ultimately show ?thesis using id by blast
  qed
  have ref: "kvv ?final (getViewRefKey ?ns v i) = expected_ref ?vp f (stored_document db) i" for i
  proof -
    have ne: "getViewRefKey ?ns v i \<noteq> getDesignKey ?ns v" by (simp add: key_defs)
    show ?thesis
    proof (cases "stored_document db i")
      case None
      then show ?thesis
        unfolding final [OF ne] mapped
        using fold_docs_untouched [OF absent [OF None], of ?ns v "getViewRefKey ?ns v i"]
        by (simp add: expected_ref_def rebuild_delete_clears_ref)
    next
      case (Some d)
      from present [OF Some] obtain pre post where sp: "?ds = pre @ DocValue d # post"
        and id: "document_id d = i"
        and pre: "\<forall>x \<in> set pre. \<forall>d'. x = DocValue d' \<longrightarrow> document_id d' \<noteq> document_id d"
        and post: "\<forall>x \<in> set post. \<forall>d'. x = DocValue d' \<longrightarrow> document_id d' \<noteq> document_id d"
        by blast
      show ?thesis
        unfolding final [OF ne] mapped sp
        using fold_docs_at(2) [OF pre post, of ?ns v f] id Some
        by (simp add: expected_ref_def)
    qed
  qed
  have row: "kvv ?final k = expected_row ?vp f (stored_document db) k" if pre: "strict_prefix ?vp k" for k
  proof -
    have ne: "k \<noteq> getDesignKey ?ns v" using pre design_not_row [of ?ns v ?ns v] by auto
    have cl: "kvv ?cleared k = None" using pre by (rule rebuild_delete_clears)
    show ?thesis
    proof (cases "\<exists>i. last k = KString i")
      case False
      then have "fold mutation_map (concat (map (doc_mutations ?ns v f) ?ds)) (kvv ?cleared) k = None"
        using fold_docs_no_id [OF pre, of f ?ds "kvv ?cleared"] cl by simp
      moreover have "expected_row ?vp f (stored_document db) k = None"
        using False by (cases "last k") (simp_all add: expected_row_def)
      ultimately show ?thesis unfolding final [OF ne] mapped by simp
    next
      case True
      then obtain i where i: "last k = KString i" by blast
      show ?thesis
      proof (cases "stored_document db i")
        case None
        then show ?thesis
          unfolding final [OF ne] mapped
          using fold_docs_untouched [OF absent [OF None], of ?ns v k] pre i cl
          by (simp add: expected_row_def)
      next
        case (Some d)
        from present [OF Some] obtain pre' post where sp: "?ds = pre' @ DocValue d # post"
          and id: "document_id d = i"
          and pre': "\<forall>x \<in> set pre'. \<forall>d'. x = DocValue d' \<longrightarrow> document_id d' \<noteq> document_id d"
          and post: "\<forall>x \<in> set post. \<forall>d'. x = DocValue d' \<longrightarrow> document_id d' \<noteq> document_id d"
          by blast
        have "fold mutation_map (concat (map (doc_mutations ?ns v f) (pre' @ DocValue d # post))) (kvv ?cleared) k =
            (case map_of (rev (emit_rows f ?vp i d)) k of Some r \<Rightarrow> Some (RowValue r) | None \<Rightarrow> None)"
          using fold_docs_at(1) [OF pre' post pre, of f "kvv ?cleared"] i id cl
          by (simp split: option.splits)
        then show ?thesis
          unfolding final [OF ne] mapped sp
          by (simp add: expected_row_def i Some split: option.splits)
      qed
    qed
  qed
  show ?thesis unfolding view_ok_def using ref row by simp
qed

lemma refprefix_other_view:
  "strict_prefix (getViewRefPrefix ns v) (getViewRefKey ns v' i) \<Longrightarrow> v = v'"
  by (auto simp: strict_prefix_def prefix_def key_defs)

lemma refkey_not_under_view:
  "key_kind k \<noteq> ''viewref'' \<Longrightarrow> \<not> strict_prefix (getViewRefPrefix ns v) k"
  using strict_prefix_viewref_kind by blast

lemma rebuildView_frame:
  assumes k: "\<not> strict_prefix (getViewKey (c_namespace db) v) k"
      "\<not> strict_prefix (getViewRefPrefix (c_namespace db) v) k"
      "k \<noteq> getDesignKey (c_namespace db) v"
  shows "kvv (c_kv (rebuildView v f sig db)) k = kvv (c_kv db) k"
proof -
  let ?ns = "c_namespace db"
  let ?cleared = "rebuild_delete ?ns v (c_kv db)"
  let ?mapped = "fst (rebuild_map ?ns v f (?cleared, c_mapCalls db))"
  have noref: "\<forall>i. k \<noteq> getViewRefKey ?ns v i"
    using k(2) by (auto simp: strict_prefix_def getViewRefKey_def)
  have "kvv (c_kv (rebuildView v f sig db)) k = kvv ?mapped k"
    unfolding rebuildView_kv using k(3) by (simp add: kvv_kv_set_other)
  also have "\<dots> = kvv ?cleared k"
    unfolding rebuild_map_kvv by (rule fold_docs_frame [OF k(1) noref])
  also have "\<dots> = kvv (c_kv db) k"
    using k(1,2) by (auto simp: rebuild_delete_kvv kv_list_mem)
  finally show ?thesis .
qed

lemma rebuildView_other_view:
  assumes "v' \<noteq> v" and ok: "view_ok (c_namespace db) v' f' g (kvv (c_kv db))"
  shows "view_ok (c_namespace db) v' f' g (kvv (c_kv (rebuildView v f sig db)))"
proof -
  let ?ns = "c_namespace db"
  have ref: "kvv (c_kv (rebuildView v f sig db)) (getViewRefKey ?ns v' i) = kvv (c_kv db) (getViewRefKey ?ns v' i)" for i
  proof (rule rebuildView_frame)
    show "\<not> strict_prefix (getViewKey ?ns v) (getViewRefKey ?ns v' i)" by (rule refkey_not_row)
    show "\<not> strict_prefix (getViewRefPrefix ?ns v) (getViewRefKey ?ns v' i)"
      using refprefix_other_view [of ?ns v v' i] assms(1) by blast
    show "getViewRefKey ?ns v' i \<noteq> getDesignKey ?ns v" by (simp add: key_defs)
  qed
  have row: "kvv (c_kv (rebuildView v f sig db)) k = kvv (c_kv db) k" if "strict_prefix (getViewKey ?ns v') k" for k
  proof (rule rebuildView_frame)
    show "\<not> strict_prefix (getViewKey ?ns v) k" using other_view_prefix [OF assms(1) that] .
    have "key_kind k = ''view''" using that by (rule strict_prefix_view_kind)
    then show "\<not> strict_prefix (getViewRefPrefix ?ns v) k" by (simp add: refkey_not_under_view)
    show "k \<noteq> getDesignKey ?ns v" using that design_not_row [of ?ns v' ?ns v] by auto
  qed
  show ?thesis using ok unfolding view_ok_def by (simp add: ref row)
qed

lemma doc_mutations_names_rows:
  assumes "KvSet k x \<in> set (concat (map (doc_mutations ns v f) ds))"
  shows "names_rows x"
proof -
  from assms obtain y where y: "y \<in> set ds" "KvSet k x \<in> set (doc_mutations ns v f y)" by auto
  from y(2) obtain d where d: "y = DocValue d" by (cases y) auto
  from y(2) [unfolded d] show ?thesis
    using emit_rows_keys [of _ _ f ns v "document_id d" d]
    by (auto simp: doc_mutations_def names_rows_def list_all_iff)
qed

lemma refs_name_rows_kvv:
  "refs_name_rows kv \<longleftrightarrow> (\<forall>k x. kvv kv k = Some x \<longrightarrow> names_rows x)"
  unfolding refs_name_rows_iff by (auto simp: kvv_def)

lemma rebuildView_refs:
  assumes "refs_name_rows (c_kv db)"
  shows "refs_name_rows (c_kv (rebuildView v f sig db))"
  unfolding refs_name_rows_kvv
proof (intro allI impI)
  fix k x
  let ?ns = "c_namespace db"
  let ?cleared = "rebuild_delete ?ns v (c_kv db)"
  let ?mapped = "fst (rebuild_map ?ns v f (?cleared, c_mapCalls db))"
  assume a: "kvv (c_kv (rebuildView v f sig db)) k = Some x"
  show "names_rows x"
  proof (cases "k = getDesignKey ?ns v")
    case True
    then have "x = DesignValue \<lparr> vs_signature = sig, vs_state = Ready \<rparr>"
      using a unfolding rebuildView_kv by (simp add: kvv_def kv_set_get_same)
    then show ?thesis by (simp add: names_rows_def)
  next
    case False
    then have "kvv ?mapped k = Some x" using a unfolding rebuildView_kv by (simp add: kvv_kv_set_other)
    from fold_mutation_cases [OF this [unfolded rebuild_map_kvv]]
    show ?thesis
    proof
      assume "kvv ?cleared k = Some x"
      then have "kvv (c_kv db) k = Some x" by (rule rebuild_delete_subset)
      then show ?thesis using assms unfolding refs_name_rows_kvv by blast
    next
      assume "KvSet k x \<in> set (concat (map (doc_mutations ?ns v f)
          (map (\<lambda>x. entry_value (snd x)) (kv_list ?cleared (PrefixSelector (getDocPrefix ?ns))))))"
      then show ?thesis by (rule doc_mutations_names_rows)
    qed
  qed
qed

lemma snapshot_of_agree:
  assumes "\<And>i. Cushion_get i db' = Cushion_get i db" "\<And>i. stored_document db' i = stored_document db i"
  shows "snapshot_of db' g = snapshot_of db g"
  by (simp add: snapshot_of_def assms)

lemma snapshot_of_stored: "snapshot_of db (stored_document db)"
  by (simp add: snapshot_of_def)

lemma snapshot_of_get: "snapshot_of db (\<lambda>i. Cushion_get i db)"
  by (simp add: snapshot_of_def)

lemma set_alist_update:
  assumes "distinct (map fst al)"
  shows "set (AList.update k v al) = insert (k, v) {x \<in> set al. fst x \<noteq> k}"
  using assms by (induction al) (auto simp: rev_image_eqI)

lemma rebuildView_current:
  assumes cur: "views_current db"
  shows "views_current
           (rebuildView v f sig (db\<lparr> c_views := AList.update v \<lparr> vl_map = f, vl_reduce = r \<rparr> (c_views db) \<rparr>))"
proof -
  let ?db1 = "db\<lparr> c_views := AList.update v \<lparr> vl_map = f, vl_reduce = r \<rparr> (c_views db) \<rparr>"
  let ?db2 = "rebuildView v f sig ?db1"
  have docs1: "docs_ok (c_namespace ?db1) (c_kv ?db1)" using cur by (simp add: views_current_def view_current_def)
  have refs1: "refs_name_rows (c_kv ?db1)" using cur by (simp add: views_current_def view_current_def)
  have dist: "distinct (map fst (c_views db))" using cur by (simp add: views_current_def view_current_def)
  have get: "Cushion_get i ?db2 = Cushion_get i db" "stored_document ?db2 i = stored_document db i" for i
    unfolding rebuildView_documents by (simp_all add: Cushion_get_def stored_document_def)
  have snap: "snapshot_of ?db2 g = snapshot_of db g" for g
    by (rule snapshot_of_agree) (simp_all add: get)
  have views: "\<exists>g. snapshot_of ?db2 g \<and> view_ok (c_namespace db) (fst x) (vl_map (snd x)) g (kvv (c_kv ?db2))"
    if x: "x \<in> set (AList.update v \<lparr> vl_map = f, vl_reduce = r \<rparr> (c_views db))" for x
  proof (cases "fst x = v")
    case True
    then have xv: "x = (v, \<lparr> vl_map = f, vl_reduce = r \<rparr>)"
      using x unfolding set_alist_update [OF dist] by auto
    have "view_ok (c_namespace db) v f (stored_document ?db1) (kvv (c_kv ?db2))"
      using rebuildView_view_ok [OF docs1, of v f sig] by simp
    moreover have "stored_document ?db1 = stored_document db"
      by (rule ext) (simp add: stored_document_def)
    moreover have "snapshot_of ?db2 (stored_document db)"
      unfolding snap by (rule snapshot_of_stored)
    ultimately show ?thesis unfolding xv by auto
  next
    case False
    then have "x \<in> set (c_views db)" using x unfolding set_alist_update [OF dist] by auto
    then obtain g where g: "snapshot_of db g" "view_ok (c_namespace db) (fst x) (vl_map (snd x)) g (kvv (c_kv db))"
      using cur unfolding views_current_def view_current_def by blast
    have "view_ok (c_namespace ?db1) (fst x) (vl_map (snd x)) g (kvv (c_kv ?db2))"
      by (rule rebuildView_other_view [OF False]) (simp add: g(2))
    then show ?thesis using g(1) snap by auto
  qed
  show ?thesis
    unfolding views_current_def view_current_def
    using rebuildView_docs_ok [OF docs1, of v f sig] rebuildView_refs [OF refs1, of v f sig]
      distinct_update [OF dist, of v "\<lparr> vl_map = f, vl_reduce = r \<rparr>"] views
    by (simp add: rebuildView_fields)
qed

lemma defineView_rebuilds:
  assumes "rebuilds digest v f db"
  shows "Cushion_defineView digest v f r db =
     rebuildView v f (hashFunction digest f)
       (db\<lparr> c_views := AList.update v \<lparr> vl_map = f, vl_reduce = r \<rparr> (c_views db) \<rparr>)"
  using assms by (auto simp: Cushion_defineView_def rebuilds_def Let_def)

lemma design_key_inject: "getDesignKey ns v = getDesignKey ns' v' \<longleftrightarrow> ns = ns' \<and> v = v'"
  by (auto simp: key_defs)

lemma defineView_other_rebuilds:
  assumes "v' \<noteq> v" "rebuilds digest v f db"
  shows "rebuilds digest' v' f' (Cushion_defineView digest v f r db) = rebuilds digest' v' f' db"
proof -
  let ?db1 = "db\<lparr> c_views := AList.update v \<lparr> vl_map = f, vl_reduce = r \<rparr> (c_views db) \<rparr>"
  have "kv_get (c_kv (rebuildView v f (hashFunction digest f) ?db1)) (getDesignKey (c_namespace db) v') =
        kv_get (c_kv db) (getDesignKey (c_namespace db) v')"
    using rebuildView_get_other [of "getDesignKey (c_namespace db) v'" ?db1 v f] assms(1)
    by (simp add: design_key_inject)
  then show ?thesis
    unfolding defineView_rebuilds [OF assms(2)]
    by (simp add: rebuilds_def design_record_def rebuildView_fields)
qed

lemma defineView_registry:
  "c_views (Cushion_defineView digest v f r db) = AList.update v \<lparr> vl_map = f, vl_reduce = r \<rparr> (c_views db)"
  by (simp add: Cushion_defineView_def Let_def rebuildView_fields)

lemma define_views_registry:
  assumes "distinct (map fst views)" "x \<in> set views"
  shows "map_of (c_views (define_views digest views db)) (fst x) =
           Some \<lparr> vl_map = fst (snd x), vl_reduce = snd (snd x) \<rparr>"
  using assms
proof (induction views arbitrary: db)
  case Nil
  then show ?case by simp
next
  case (Cons y ys)
  let ?db' = "Cushion_defineView digest (fst y) (fst (snd y)) (snd (snd y)) db"
  have keep: "map_of (c_views (define_views digest ys d)) n = map_of (c_views d) n"
    if "n \<notin> fst ` set ys" for n d
    using that
  proof (induction ys arbitrary: d)
    case Nil
    then show ?case by simp
  next
    case (Cons z zs)
    then show ?case by (simp add: defineView_registry update_conv')
  qed
  show ?case
  proof (cases "x = y")
    case True
    have "fst y \<notin> fst ` set ys" using Cons.prems(1) by simp
    from keep [OF this, of ?db'] show ?thesis
      unfolding True by (simp add: defineView_registry update_conv')
  next
    case False
    then have "x \<in> set ys" using Cons.prems(2) by simp
    then show ?thesis using Cons.IH [of ?db'] Cons.prems(1) by simp
  qed
qed

subsection \<open>Insert, replace and remove keep the views current\<close>

lemma views_current_snapshots:
  assumes "views_current db"
  obtains G where "views_consistent G db"
    and "\<forall>x \<in> set (c_views db). snapshot_of db (G (fst x))"
proof -
  let ?P = "\<lambda>x g. snapshot_of db g \<and> view_ok (c_namespace db) (fst x) (vl_map (snd x)) g (kvv (c_kv db))"
  have dist: "distinct (map fst (c_views db))" using assms by (simp add: views_current_def view_current_def)
  have "\<forall>x \<in> set (c_views db). \<exists>g. ?P x g" using assms by (simp add: views_current_def view_current_def)
  then obtain F where F: "\<forall>x \<in> set (c_views db). ?P x (F x)" by (rule bchoice [THEN exE])
  define G where "G = (\<lambda>n. F (n, the (map_of (c_views db) n)))"
  have G: "G (fst x) = F x" if "x \<in> set (c_views db)" for x
  proof -
    have "map_of (c_views db) (fst x) = Some (snd x)"
      using dist that by (cases x) simp
    then show ?thesis by (simp add: G_def)
  qed
  have "views_consistent G db"
    unfolding views_consistent_def using assms F G by (simp add: views_current_def view_current_def)
  moreover have "\<forall>x \<in> set (c_views db). snapshot_of db (G (fst x))" using F G by simp
  ultimately show thesis by (rule that)
qed

lemma views_consistent_current:
  assumes "views_consistent G db" "docs_ok (c_namespace db) (c_kv db)"
    and "\<forall>x \<in> set (c_views db). snapshot_of db (G (fst x))"
  shows "views_current db"
  unfolding views_current_def view_current_def using assms by (auto simp: views_consistent_def)

lemma document_write_current:
  assumes cur: "views_current db"
    and kv1: "\<And>k. k \<noteq> getDocumentKey (c_namespace db) docId \<Longrightarrow> kv_get kv1 k = kv_get (c_kv db) k"
    and refs1: "refs_name_rows kv1"
    and docs1: "docs_ok (c_namespace db) kv1"
    and get1: "Cushion_get docId (db\<lparr> c_kv := kv1 \<rparr>) = doc"
  shows "views_current (updateViewsForDoc docId doc (db\<lparr> c_kv := kv1 \<rparr>))"
proof -
  let ?ns = "c_namespace db"
  let ?db1 = "db\<lparr> c_kv := kv1 \<rparr>"
  let ?db2 = "updateViewsForDoc docId doc ?db1"
  from cur obtain G where G: "views_consistent G db"
    and snap: "\<forall>x \<in> set (c_views db). snapshot_of db (G (fst x))"
    by (rule views_current_snapshots)
  let ?G = "\<lambda>v. (G v)(docId := doc)"
  have cons2: "views_consistent ?G ?db2" using G kv1 refs1 by (rule document_write_views)
  have refs1': "refs_name_rows (c_kv ?db1)" using refs1 by simp
  note props = updateViewsForDoc_props [OF refs1', where docId = docId and doc = doc]
  have same: "kv_get (c_kv ?db2) k = kv_get kv1 k" if "key_kind k = ''doc''" for k
    using props(4) [of k] that by simp
  have docs2: "docs_ok (c_namespace ?db2) (c_kv ?db2)"
    unfolding docs_ok_def
  proof (intro allI impI)
    fix k e assume a: "kv_get (c_kv ?db2) k = Some e \<and> strict_prefix (getDocPrefix (c_namespace ?db2)) k"
    then have pre: "strict_prefix (getDocPrefix ?ns) k" using props(2) by simp
    then have "kv_get kv1 k = Some e" using same [OF strict_prefix_doc_kind] a by simp
    then show "\<exists>i d. k = getDocumentKey (c_namespace ?db2) i \<and> entry_value e = DocValue d \<and>
                   d ''_id'' = Some (JString i)"
      using docs1 pre props(2) unfolding docs_ok_def by auto
  qed
  have get2: "Cushion_get docId ?db2 = doc"
    using same [of "getDocumentKey ?ns docId"] get1 props(2) by (simp add: Cushion_get_def)
  have other: "Cushion_get i ?db2 = Cushion_get i db \<and> stored_document ?db2 i = stored_document db i"
    if "i \<noteq> docId" for i
  proof -
    have "getDocumentKey ?ns i \<noteq> getDocumentKey ?ns docId" using that by (simp add: dockey_inject)
    then have "kv_get (c_kv ?db2) (getDocumentKey ?ns i) = kv_get (c_kv db) (getDocumentKey ?ns i)"
      using same [of "getDocumentKey ?ns i"] kv1 by simp
    then show ?thesis using props(2) by (simp add: Cushion_get_def stored_document_def)
  qed
  have snap2: "\<forall>x \<in> set (c_views ?db2). snapshot_of ?db2 (?G (fst x))"
  proof
    fix x assume "x \<in> set (c_views ?db2)"
    then have "x \<in> set (c_views db)" using props(3) by simp
    then have s: "snapshot_of db (G (fst x))" using snap by blast
    show "snapshot_of ?db2 (?G (fst x))"
      unfolding snapshot_of_def
    proof
      fix i
      show "?G (fst x) i = Cushion_get i ?db2 \<or> ?G (fst x) i = stored_document ?db2 i"
      proof (cases "i = docId")
        case True
        then show ?thesis using get2 by simp
      next
        case False
        then show ?thesis using other [OF False] s by (simp add: snapshot_of_def)
      qed
    qed
  qed
  show ?thesis using cons2 docs2 snap2 by (rule views_consistent_current)
qed

lemma docs_ok_set:
  assumes "docs_ok ns kv" "d ''_id'' = Some (JString i)"
  shows "docs_ok ns \<lparr> kv_entries = DAList.update (getDocumentKey ns i)
                          \<lparr> entry_value = DocValue d, entry_versionstamp = v \<rparr> (kv_entries kv),
                      kv_clock = c \<rparr>"
  using assms unfolding docs_ok_def
  by (auto simp: kv_get_def DAList.lookup_update split: if_splits)

lemma docs_ok_delete:
  assumes "docs_ok ns kv"
  shows "docs_ok ns \<lparr> kv_entries = DAList.delete k (kv_entries kv), kv_clock = c \<rparr>"
  using assms unfolding docs_ok_def
  by (auto simp: kv_get_def split: if_splits)

lemma insert_current:
  assumes "views_current db"
  shows "views_current (snd (Cushion_insert uuid doc db))"
proof -
  let ?id = "insert_id doc uuid"
  let ?k = "getDocumentKey (c_namespace db) ?id"
  let ?v = "Suc (kv_clock (c_kv db))"
  let ?init = "doc(''_id'' \<mapsto> JString ?id)"
  let ?kv1 = "\<lparr> kv_entries = DAList.update ?k \<lparr> entry_value = DocValue ?init, entry_versionstamp = ?v \<rparr> (kv_entries (c_kv db)),
           kv_clock = ?v \<rparr>"
  show ?thesis
  proof (cases "doc ''_rev'' = None \<and> kv_get (c_kv db) ?k = None")
    case False
    then have "snd (Cushion_insert uuid doc db) = db"
      by (auto simp: Cushion_insert_def Let_def commit_checked_set)
    then show ?thesis using assms by simp
  next
    case True
    then have ins: "snd (Cushion_insert uuid doc db) =
        updateViewsForDoc ?id (Some (?init(''_rev'' \<mapsto> JStamp ?v))) (db\<lparr> c_kv := ?kv1 \<rparr>)"
      by (simp add: Cushion_insert_def Let_def commit_checked_set)
    have refs: "refs_name_rows (c_kv db)" using assms by (simp add: views_current_def view_current_def)
    have docs: "docs_ok (c_namespace db) (c_kv db)" using assms by (simp add: views_current_def view_current_def)
    show ?thesis
      unfolding ins
    proof (rule document_write_current [OF assms])
      show "kv_get ?kv1 k = kv_get (c_kv db) k" if "k \<noteq> ?k" for k
        using that by (simp add: kv_get_def DAList.lookup_update)
      show "refs_name_rows ?kv1"
        using refs_name_rows_set [OF refs, of "DocValue ?init"] by (simp add: names_rows_def)
      show "docs_ok (c_namespace db) ?kv1" by (rule docs_ok_set [OF docs]) simp
      show "Cushion_get ?id (db\<lparr> c_kv := ?kv1 \<rparr>) = Some (?init(''_rev'' \<mapsto> JStamp ?v))"
        by (simp add: Cushion_get_def kv_get_def)
    qed
  qed
qed

lemma replace_current:
  assumes "views_current db"
  shows "views_current (snd (Cushion_replace docId rev' doc db))"
proof -
  let ?k = "getDocumentKey (c_namespace db) docId"
  let ?v = "Suc (kv_clock (c_kv db))"
  let ?u = "(doc(''_rev'' := None))(''_id'' \<mapsto> JString docId)"
  let ?kv1 = "\<lparr> kv_entries = DAList.update ?k \<lparr> entry_value = DocValue ?u, entry_versionstamp = ?v \<rparr> (kv_entries (c_kv db)),
           kv_clock = ?v \<rparr>"
  show ?thesis
  proof (cases "map_option entry_versionstamp (kv_get (c_kv db) ?k) = Some rev'")
    case False
    then have "snd (Cushion_replace docId rev' doc db) = db"
      by (auto simp: Cushion_replace_def Let_def commit_checked_set)
    then show ?thesis using assms by simp
  next
    case True
    then have rep: "snd (Cushion_replace docId rev' doc db) =
        updateViewsForDoc docId (Some (?u(''_rev'' \<mapsto> JStamp ?v))) (db\<lparr> c_kv := ?kv1 \<rparr>)"
      by (simp add: Cushion_replace_def Let_def commit_checked_set)
    have refs: "refs_name_rows (c_kv db)" using assms by (simp add: views_current_def view_current_def)
    have docs: "docs_ok (c_namespace db) (c_kv db)" using assms by (simp add: views_current_def view_current_def)
    show ?thesis
      unfolding rep
    proof (rule document_write_current [OF assms])
      show "kv_get ?kv1 k = kv_get (c_kv db) k" if "k \<noteq> ?k" for k
        using that by (simp add: kv_get_def DAList.lookup_update)
      show "refs_name_rows ?kv1"
        using refs_name_rows_set [OF refs, of "DocValue ?u"] by (simp add: names_rows_def)
      show "docs_ok (c_namespace db) ?kv1" by (rule docs_ok_set [OF docs]) simp
      show "Cushion_get docId (db\<lparr> c_kv := ?kv1 \<rparr>) = Some (?u(''_rev'' \<mapsto> JStamp ?v))"
        by (simp add: Cushion_get_def kv_get_def)
    qed
  qed
qed

lemma remove_current:
  assumes "views_current db"
  shows "views_current (snd (Cushion_remove docId rev' db))"
proof -
  let ?k = "getDocumentKey (c_namespace db) docId"
  let ?kv1 = "\<lparr> kv_entries = DAList.delete ?k (kv_entries (c_kv db)), kv_clock = Suc (kv_clock (c_kv db)) \<rparr>"
  show ?thesis
  proof (cases "map_option entry_versionstamp (kv_get (c_kv db) ?k) = Some rev'")
    case False
    then have "snd (Cushion_remove docId rev' db) = db"
      by (auto simp: Cushion_remove_def Let_def commit_checked_delete)
    then show ?thesis using assms by simp
  next
    case True
    then have rem: "snd (Cushion_remove docId rev' db) =
        updateViewsForDoc docId None (db\<lparr> c_kv := ?kv1 \<rparr>)"
      by (simp add: Cushion_remove_def Let_def commit_checked_delete)
    have refs: "refs_name_rows (c_kv db)" using assms by (simp add: views_current_def view_current_def)
    have docs: "docs_ok (c_namespace db) (c_kv db)" using assms by (simp add: views_current_def view_current_def)
    show ?thesis
      unfolding rem
    proof (rule document_write_current [OF assms])
      show "kv_get ?kv1 k = kv_get (c_kv db) k" if "k \<noteq> ?k" for k
        using that by (simp add: kv_get_def)
      show "refs_name_rows ?kv1" using refs_name_rows_delete [OF refs] .
      show "docs_ok (c_namespace db) ?kv1" using docs by (rule docs_ok_delete)
      show "Cushion_get docId (db\<lparr> c_kv := ?kv1 \<rparr>) = None"
        by (simp add: Cushion_get_def kv_get_def)
    qed
  qed
qed

lemma run_operation_current: "views_current db \<Longrightarrow> views_current (run_operation db op)"
  by (cases op) (simp_all add: insert_current replace_current remove_current)

lemma run_operations_current: "views_current db \<Longrightarrow> views_current (foldl run_operation db ops)"
  by (induction ops arbitrary: db) (simp_all add: run_operation_current)

lemma run_operations_registry:
  assumes "views_current db"
  shows "c_namespace (foldl run_operation db ops) = c_namespace db"
    and "c_views (foldl run_operation db ops) = c_views db"
proof -
  have "c_namespace (foldl run_operation db ops) = c_namespace db \<and>
        c_views (foldl run_operation db ops) = c_views db"
    using assms
  proof (induction ops arbitrary: db)
    case Nil
    then show ?case by simp
  next
    case (Cons op ops)
    have refs: "refs_name_rows (c_kv db)" using Cons.prems by (simp add: views_current_def view_current_def)
    show ?case
      using Cons.IH [OF run_operation_current [OF Cons.prems, of op]]
        run_operation_fields [OF refs, of op]
      by simp
  qed
  then show "c_namespace (foldl run_operation db ops) = c_namespace db"
    and "c_views (foldl run_operation db ops) = c_views db" by simp_all
qed

lemma define_views_namespace [simp]: "c_namespace (define_views digest views db) = c_namespace db"
  by (induction views arbitrary: db) simp_all

lemma open_current:
  assumes "docs_ok ns kv" "refs_name_rows kv"
  shows "views_current (Cushion_open ns kv)"
  using assms by (simp add: views_current_def view_current_def Cushion_open_def)

subsection \<open>Defining views keeps the views current\<close>

lemma defineView_returns:
  assumes "\<not> rebuilds digest v f db"
  shows "Cushion_defineView digest v f r db =
     db\<lparr> c_views := AList.update v \<lparr> vl_map = f, vl_reduce = r \<rparr> (c_views db) \<rparr>"
  using assms by (auto simp: Cushion_defineView_def rebuilds_def Let_def)

lemma registry_current:
  assumes cur: "views_current db" and v: "view_current db v f"
  shows "views_current (db\<lparr> c_views := AList.update v \<lparr> vl_map = f, vl_reduce = r \<rparr> (c_views db) \<rparr>)"
proof -
  let ?db1 = "db\<lparr> c_views := AList.update v \<lparr> vl_map = f, vl_reduce = r \<rparr> (c_views db) \<rparr>"
  have dist: "distinct (map fst (c_views db))" using cur by (simp add: views_current_def)
  have same: "view_current ?db1 n m = view_current db n m" for n m
    by (simp add: view_current_def snapshot_of_def Cushion_get_def stored_document_def)
  have "view_current ?db1 (fst x) (vl_map (snd x))"
    if "x \<in> set (AList.update v \<lparr> vl_map = f, vl_reduce = r \<rparr> (c_views db))" for x
    using that cur v unfolding set_alist_update [OF dist] same
    by (auto simp: views_current_def)
  then show ?thesis
    using cur distinct_update [OF dist, of v "\<lparr> vl_map = f, vl_reduce = r \<rparr>"]
    by (simp add: views_current_def)
qed

lemma defineView_keeps_current:
  assumes "views_current db" "rebuilds digest v f db \<or> view_current db v f"
  shows "views_current (Cushion_defineView digest v f r db)"
proof (cases "rebuilds digest v f db")
  case True
  show ?thesis unfolding defineView_rebuilds [OF True] using assms(1) by (rule rebuildView_current)
next
  case False
  then have "view_current db v f" using assms(2) by simp
  then show ?thesis unfolding defineView_returns [OF False] using assms(1) registry_current by blast
qed

lemma rebuildView_other_current:
  assumes "v' \<noteq> v" "view_current db v' f'"
  shows "view_current (rebuildView v f sig db) v' f'"
proof -
  from assms(2) obtain g where g: "snapshot_of db g" "view_ok (c_namespace db) v' f' g (kvv (c_kv db))"
    unfolding view_current_def by blast
  have "snapshot_of (rebuildView v f sig db) g"
    using g(1) by (simp add: snapshot_of_def rebuildView_documents)
  moreover have "view_ok (c_namespace db) v' f' g (kvv (c_kv (rebuildView v f sig db)))"
    using assms(1) g(2) by (rule rebuildView_other_view)
  ultimately show ?thesis unfolding view_current_def by (auto simp: rebuildView_fields)
qed

lemma defineView_other:
  assumes "v' \<noteq> v" "rebuilds digest' v' f' db \<or> view_current db v' f'"
  shows "rebuilds digest' v' f' (Cushion_defineView digest v f r db) \<or>
         view_current (Cushion_defineView digest v f r db) v' f'"
proof (cases "rebuilds digest v f db")
  case True
  let ?db1 = "db\<lparr> c_views := AList.update v \<lparr> vl_map = f, vl_reduce = r \<rparr> (c_views db) \<rparr>"
  have same: "view_current ?db1 v' f' = view_current db v' f'"
    by (simp add: view_current_def snapshot_of_def Cushion_get_def stored_document_def)
  show ?thesis
    using assms(2)
  proof
    assume "rebuilds digest' v' f' db"
    then show ?thesis using defineView_other_rebuilds [OF assms(1) True] by simp
  next
    assume "view_current db v' f'"
    then have "view_current ?db1 v' f'" using same by simp
    then show ?thesis
      unfolding defineView_rebuilds [OF True] using rebuildView_other_current [OF assms(1)] by blast
  qed
next
  case False
  show ?thesis
    using assms(2) unfolding defineView_returns [OF False]
    by (simp add: rebuilds_def view_current_def snapshot_of_def Cushion_get_def stored_document_def)
qed

lemma define_views_keep_current:
  assumes "views_current db" "distinct (map fst views)"
    and "\<forall>x \<in> set views. rebuilds digest (fst x) (fst (snd x)) db \<or> view_current db (fst x) (fst (snd x))"
  shows "views_current (define_views digest views db)"
  using assms
proof (induction views arbitrary: db)
  case Nil
  then show ?case by simp
next
  case (Cons x xs)
  let ?db' = "Cushion_defineView digest (fst x) (fst (snd x)) (snd (snd x)) db"
  have hx: "rebuilds digest (fst x) (fst (snd x)) db \<or> view_current db (fst x) (fst (snd x))"
    using Cons.prems(3) by simp
  have cur': "views_current ?db'" using Cons.prems(1) hx by (rule defineView_keeps_current)
  have "\<forall>y \<in> set xs. rebuilds digest (fst y) (fst (snd y)) ?db' \<or> view_current ?db' (fst y) (fst (snd y))"
  proof
    fix y assume y: "y \<in> set xs"
    then have "fst y \<in> fst ` set xs" by (rule imageI)
    moreover have "fst x \<notin> fst ` set xs" using Cons.prems(2) by simp
    ultimately have ne: "fst y \<noteq> fst x" by metis
    have "rebuilds digest (fst y) (fst (snd y)) db \<or> view_current db (fst y) (fst (snd y))"
      using Cons.prems(3) y by simp
    with ne show "rebuilds digest (fst y) (fst (snd y)) ?db' \<or> view_current ?db' (fst y) (fst (snd y))"
      by (rule defineView_other)
  qed
  then show ?case using Cons.IH [OF cur'] Cons.prems(2) by simp
qed

subsection \<open>The test store\<close>

lemma test_store_eq:
  "test_store =
     \<lparr> kv_entries = DAList.update [KString ''test'', KString ''doc'', KString ''alice'']
                      \<lparr> entry_value = DocValue alice, entry_versionstamp = 1 \<rparr> DAList.empty,
       kv_clock = 1 \<rparr>"
  unfolding test_store_def
  by (simp add: Cushion_insert_def alice_facts Cushion_open_def Let_def commit_checked_set kv_get_def
      kv_empty_def DAList.lookup_update key_defs updateViewsForDoc_def)

lemma test_store_get:
  "kv_get test_store k =
     (if k = getDocumentKey ''test'' ''alice''
      then Some \<lparr> entry_value = DocValue alice, entry_versionstamp = 1 \<rparr> else None)"
  by (simp add: test_store_eq kv_get_def DAList.lookup_update key_defs)

lemma test_store_current: "views_current (Cushion_open ''test'' test_store)"
proof (rule open_current)
  show "docs_ok ''test'' test_store"
    unfolding docs_ok_def test_store_get by (auto simp: alice_def split: if_splits)
  show "refs_name_rows test_store"
    unfolding refs_name_rows_iff test_store_get by (auto simp: names_rows_def split: if_splits)
qed

lemma test_store_rebuilds: "rebuilds (\<lambda>text. text) ''by-name'' by_name (Cushion_open ''test'' test_store)"
  by (simp add: rebuilds_def design_record_def Cushion_open_def test_store_get key_defs)

lemma snapshot_cases:
  assumes "g i = Cushion_get i db \<or> g i = stored_document db i"
  shows "stored_document db i = None \<Longrightarrow> g i = None"
    and "stored_document db i = Some d \<Longrightarrow> d ''_rev'' = None \<Longrightarrow>
           \<exists>d'. g i = Some d' \<and> d'(''_rev'' := None) = d"
  using assms
  by (auto simp: Cushion_get_def stored_document_def fun_upd_idem split: option.splits KvValue.splits)

lemma by_name_emits:
  assumes "d(''_rev'' := None) = [''_id'' \<mapsto> JString i, ''type'' \<mapsto> JString ''user'', ''name'' \<mapsto> JString n]"
  shows "fn_emits by_name d = [(EmitPart (KString n), JUndefined)]"
proof -
  have "d ''type'' = Some (JString ''user'')" using assms [THEN fun_cong, of "''type''"] by simp
  moreover have "d ''name'' = Some (JString n)" using assms [THEN fun_cong, of "''name''"] by simp
  ultimately show ?thesis by (simp add: by_name_def)
qed

lemma test_db_late_documents:
  "stored_document test_db_late ''alice'' = Some alice"
  "stored_document test_db_late ''bob'' = Some bob"
  "stored_document test_db_late ''carol'' = None"
proof -
  let ?db0 = "Cushion_open ''test'' test_store"
  let ?db1 = "define_views (\<lambda>text. text) [(''by-name'', by_name, None)] ?db0"
  have ns0: "c_namespace ?db0 = ''test''" and kv0: "c_kv ?db0 = test_store"
    by (simp_all add: Cushion_open_def)
  have db1: "?db1 = rebuildView ''by-name'' by_name (hashFunction (\<lambda>text. text) by_name)
        (?db0\<lparr> c_views := AList.update ''by-name'' \<lparr> vl_map = by_name, vl_reduce = None \<rparr> (c_views ?db0) \<rparr>)"
    using defineView_rebuilds [OF test_store_rebuilds, of None] by simp
  have ns1: "c_namespace ?db1 = ''test''" by (simp add: ns0)
  have get1: "kv_get (c_kv ?db1) (getDocumentKey ''test'' i) = kv_get test_store (getDocumentKey ''test'' i)" for i
    unfolding db1
    using rebuildView_get_other [of "getDocumentKey ''test'' i"
        "?db0\<lparr> c_views := AList.update ''by-name'' \<lparr> vl_map = by_name, vl_reduce = None \<rparr> (c_views ?db0) \<rparr>"
        "''by-name''" by_name]
    by (simp add: ns0 kv0 design_key_not_doc [symmetric])
  have cur1: "views_current ?db1"
    using test_store_current _ _
  proof (rule define_views_keep_current)
    show "distinct (map fst [(''by-name'', by_name, None :: ReduceFunction option)])" by simp
    show "\<forall>x \<in> set [(''by-name'', by_name, None)].
        rebuilds (\<lambda>text. text) (fst x) (fst (snd x)) ?db0 \<or> view_current ?db0 (fst x) (fst (snd x))"
      using test_store_rebuilds by simp
  qed
  then have refs1: "refs_name_rows (c_kv ?db1)" by (simp add: views_current_def)
  have id: "insert_id bob ''6f1c'' = ''bob''" "bob(''_id'' \<mapsto> JString ''bob'') = bob" "bob ''_rev'' = None"
    by (auto simp: bob_def insert_id_def)
  have fresh: "kv_get (c_kv ?db1) (getDocumentKey (c_namespace ?db1) (insert_id bob ''6f1c'')) = None"
    unfolding ns1 id get1 by (simp add: test_store_get dockey_inject)
  note ins = insert_success [OF id(3) fresh refs1, unfolded id ns1]
  have late: "test_db_late = snd (Cushion_insert ''6f1c'' bob ?db1)" by (simp add: test_db_late_def)
  have ns: "c_namespace test_db_late = ''test''" unfolding late using ins(3) .
  have other: "kv_get (c_kv test_db_late) (getDocumentKey ''test'' i) = kv_get test_store (getDocumentKey ''test'' i)"
    if "i \<noteq> ''bob''" for i
    unfolding late using ins(4) [of "getDocumentKey ''test'' i"] that get1 [of i]
    by (simp add: dockey_inject)
  show "stored_document test_db_late ''alice'' = Some alice"
    using other [of "''alice''"] by (simp add: stored_document_def ns test_store_get)
  show "stored_document test_db_late ''bob'' = Some bob"
    unfolding late using ins(2,3) by (simp add: stored_document_def)
  show "stored_document test_db_late ''carol'' = None"
    using other [of "''carol''"] by (simp add: stored_document_def ns test_store_get dockey_inject)
qed

text \<open>
  Claim C1, amended. Take a database whose views are current: for one, a database just
  opened on a store with well-formed documents and back-references that name rows. Define
  views with distinct names, each \<^verbatim>\<open>defineView\<close> either rebuilding the view or finding the
  view current for the function, and then run any sequence of \<^verbatim>\<open>insert\<close>, \<^verbatim>\<open>replace\<close> and
  \<^verbatim>\<open>remove\<close> calls. Then every defined view is in the registry, and for every view \<open>x\<close> of the
  registry there is a snapshot \<open>g\<close> of the documents, which gives for every id the document
  \<^verbatim>\<open>get(id)\<close> returns or that document without \<^verbatim>\<open>_rev\<close>, and nothing when \<^verbatim>\<open>get(id)\<close> is null,
  such that: the back-reference of an id is the list of the composite keys of all the
  emissions of the map function on the snapshot of the document, and there is none when
  there is no document; the row at a key under the prefix of the view is the row of the
  last emission of that key by the snapshot of the document whose id ends the key, and
  there is no row when no live document emits the key.
\<close>

theorem views_after_operations:
  assumes "views_current db" and "distinct (map fst views)"
    and "\<forall>x \<in> set views. rebuilds digest (fst x) (fst (snd x)) db \<or> view_current db (fst x) (fst (snd x))"
    and "db' = foldl run_operation (define_views digest views db) ops"
  shows "(\<forall>x \<in> set views.
            map_of (c_views db') (fst x) = Some \<lparr> vl_map = fst (snd x), vl_reduce = snd (snd x) \<rparr>) \<and>
         (\<forall>x \<in> set (c_views db').
            \<exists>g. (\<forall>docId. g docId = Cushion_get docId db' \<or> g docId = stored_document db' docId) \<and>
                (\<forall>docId. kvv (c_kv db') (getViewRefKey (c_namespace db) (fst x) docId) =
                           expected_ref (getViewKey (c_namespace db) (fst x)) (vl_map (snd x)) g docId) \<and>
                (\<forall>k. strict_prefix (getViewKey (c_namespace db) (fst x)) k \<longrightarrow>
                       kvv (c_kv db') k =
                       expected_row (getViewKey (c_namespace db) (fst x)) (vl_map (snd x)) g k))"
proof -
  let ?start = "define_views digest views db"
  have c0: "views_current ?start" using assms(1,2,3) by (rule define_views_keep_current)
  have c: "views_current db'" unfolding assms(4) using c0 by (rule run_operations_current)
  have ns: "c_namespace db' = c_namespace db"
    unfolding assms(4) using run_operations_registry(1) [OF c0] by simp
  have reg: "c_views db' = c_views ?start"
    unfolding assms(4) using run_operations_registry(2) [OF c0] .
  have 1: "\<forall>x \<in> set views.
            map_of (c_views db') (fst x) = Some \<lparr> vl_map = fst (snd x), vl_reduce = snd (snd x) \<rparr>"
    unfolding reg using define_views_registry [OF assms(2)] by blast
  have 2: "\<exists>g. (\<forall>docId. g docId = Cushion_get docId db' \<or> g docId = stored_document db' docId) \<and>
                (\<forall>docId. kvv (c_kv db') (getViewRefKey (c_namespace db) (fst x) docId) =
                           expected_ref (getViewKey (c_namespace db) (fst x)) (vl_map (snd x)) g docId) \<and>
                (\<forall>k. strict_prefix (getViewKey (c_namespace db) (fst x)) k \<longrightarrow>
                       kvv (c_kv db') k =
                       expected_row (getViewKey (c_namespace db) (fst x)) (vl_map (snd x)) g k)"
    if "x \<in> set (c_views db')" for x
    using c that unfolding views_current_def view_current_def snapshot_of_def view_ok_def ns by blast
  show ?thesis using 1 2 by blast
qed

text \<open>
  The test store holds \<^verbatim>\<open>alice\<close> before the view is defined; \<^verbatim>\<open>bob\<close> is inserted after. Both
  have their back-reference and their row, the rows hold the documents up to \<^verbatim>\<open>_rev\<close>, and
  there is nothing for \<^verbatim>\<open>carol\<close> and no row of \<^verbatim>\<open>bob\<close> under the name of \<^verbatim>\<open>alice\<close>.
\<close>

theorem views_after_operations_witness:
  "kvv (c_kv test_db_late) (getViewRefKey ''test'' ''by-name'' ''alice'') =
     Some (RefValue [[KString ''test'', KString ''view'', KString ''by-name'', KString ''Alice'', KString ''alice'']]) \<and>
   kvv (c_kv test_db_late) (getViewRefKey ''test'' ''by-name'' ''bob'') =
     Some (RefValue [[KString ''test'', KString ''view'', KString ''by-name'', KString ''Bob'', KString ''bob'']]) \<and>
   kvv (c_kv test_db_late) (getViewRefKey ''test'' ''by-name'' ''carol'') = None \<and>
   (\<exists>d. kvv (c_kv test_db_late) [KString ''test'', KString ''view'', KString ''by-name'', KString ''Alice'', KString ''alice''] =
          Some (RowValue \<lparr> row_value = JNull, row_doc = d \<rparr>) \<and> d(''_rev'' := None) = alice) \<and>
   (\<exists>d. kvv (c_kv test_db_late) [KString ''test'', KString ''view'', KString ''by-name'', KString ''Bob'', KString ''bob''] =
          Some (RowValue \<lparr> row_value = JNull, row_doc = d \<rparr>) \<and> d(''_rev'' := None) = bob) \<and>
   kvv (c_kv test_db_late) [KString ''test'', KString ''view'', KString ''by-name'', KString ''Alice'', KString ''bob''] = None \<and>
   kvv (c_kv test_db_late) [KString ''test'', KString ''view'', KString ''by-name'', KString ''Carol'', KString ''carol''] = None"
proof -
  let ?db0 = "Cushion_open ''test'' test_store"
  let ?vp = "getViewKey ''test'' ''by-name''"
  let ?ka = "[KString ''test'', KString ''view'', KString ''by-name'', KString ''Alice'', KString ''alice'']"
  let ?kb = "[KString ''test'', KString ''view'', KString ''by-name'', KString ''Bob'', KString ''bob'']"
  let ?kab = "[KString ''test'', KString ''view'', KString ''by-name'', KString ''Alice'', KString ''bob'']"
  let ?kc = "[KString ''test'', KString ''view'', KString ''by-name'', KString ''Carol'', KString ''carol'']"
  have ns0: "c_namespace ?db0 = ''test''" by (simp add: Cushion_open_def)
  have h2: "distinct (map fst [(''by-name'', by_name, None :: ReduceFunction option)])" by simp
  have h3: "\<forall>x \<in> set [(''by-name'', by_name, None)].
        rebuilds (\<lambda>text. text) (fst x) (fst (snd x)) ?db0 \<or> view_current ?db0 (fst x) (fst (snd x))"
    using test_store_rebuilds by simp
  note inst = views_after_operations [OF test_store_current h2 h3 test_db_late_def, unfolded ns0]
  from inst have "map_of (c_views test_db_late) ''by-name'' = Some \<lparr> vl_map = by_name, vl_reduce = None \<rparr>"
    by simp
  then have mem: "(''by-name'', \<lparr> vl_map = by_name, vl_reduce = None \<rparr>) \<in> set (c_views test_db_late)"
    by (rule map_of_SomeD)
  from inst mem obtain g where
    snap: "\<And>i. g i = Cushion_get i test_db_late \<or> g i = stored_document test_db_late i"
    and ref: "\<And>i. kvv (c_kv test_db_late) (getViewRefKey ''test'' ''by-name'' i) = expected_ref ?vp by_name g i"
    and row: "\<And>k. strict_prefix ?vp k \<Longrightarrow> kvv (c_kv test_db_late) k = expected_row ?vp by_name g k"
    by fastforce
  from snapshot_cases(2) [where g = g and i = "''alice''" and db = test_db_late, OF snap test_db_late_documents(1)]
  obtain da where da: "g ''alice'' = Some da" "da(''_rev'' := None) = alice" by (auto simp: alice_def)
  from snapshot_cases(2) [where g = g and i = "''bob''" and db = test_db_late, OF snap test_db_late_documents(2)]
  obtain db where db: "g ''bob'' = Some db" "db(''_rev'' := None) = bob" by (auto simp: bob_def)
  have gc: "g ''carol'' = None" using snapshot_cases(1) [where g = g and i = "''carol''" and db = test_db_late, OF snap test_db_late_documents(3)] .
  have ea: "emit_rows by_name ?vp ''alice'' da = [(?ka, \<lparr> row_value = JNull, row_doc = da \<rparr>)]"
    using by_name_emits [of da "''alice''" "''Alice''"] da(2)
    by (simp add: emit_rows_def emit_row_def nullish_to_null_def key_defs alice_def)
  have eb: "emit_rows by_name ?vp ''bob'' db = [(?kb, \<lparr> row_value = JNull, row_doc = db \<rparr>)]"
    using by_name_emits [of db "''bob''" "''Bob''"] db(2)
    by (simp add: emit_rows_def emit_row_def nullish_to_null_def key_defs bob_def)
  have pre: "strict_prefix ?vp ?ka" "strict_prefix ?vp ?kb" "strict_prefix ?vp ?kab" "strict_prefix ?vp ?kc"
    by (simp_all add: strict_prefix_def key_defs)
  have 1: "kvv (c_kv test_db_late) (getViewRefKey ''test'' ''by-name'' ''alice'') = Some (RefValue [?ka])"
    unfolding ref by (simp add: expected_ref_def da(1) ea)
  have 2: "kvv (c_kv test_db_late) (getViewRefKey ''test'' ''by-name'' ''bob'') = Some (RefValue [?kb])"
    unfolding ref by (simp add: expected_ref_def db(1) eb)
  have 3: "kvv (c_kv test_db_late) (getViewRefKey ''test'' ''by-name'' ''carol'') = None"
    unfolding ref by (simp add: expected_ref_def gc)
  have 4: "kvv (c_kv test_db_late) ?ka = Some (RowValue \<lparr> row_value = JNull, row_doc = da \<rparr>)"
    unfolding row [OF pre(1)] by (simp add: expected_row_def da(1) ea)
  have 5: "kvv (c_kv test_db_late) ?kb = Some (RowValue \<lparr> row_value = JNull, row_doc = db \<rparr>)"
    unfolding row [OF pre(2)] by (simp add: expected_row_def db(1) eb)
  have 6: "kvv (c_kv test_db_late) ?kab = None"
    unfolding row [OF pre(3)] by (simp add: expected_row_def db(1) eb)
  have 7: "kvv (c_kv test_db_late) ?kc = None"
    unfolding row [OF pre(4)] by (simp add: expected_row_def gc)
  show ?thesis using 1 2 3 4 5 6 7 da(2) db(2) by blast
qed

end
